theory Spec2Isabelle
  imports Complex_Main "HOL-Library.AList" "HOL-Library.Char_ord" "HOL-Library.List_Lexorder"
begin

section \<open>JavaScript containers\<close>

text \<open>
  File identifiers are normalised absolute paths; \<open>path.normalize\<close> is the identity on
  them and is not written out. A JavaScript \<open>Map\<close> is an association list in insertion
  order: \<open>Map.set\<close> is \<open>AList.update\<close> (an existing key keeps its position, a new key
  goes to the end), \<open>Map.delete\<close> is \<open>AList.delete\<close>, \<open>Map.get\<close> is \<open>map_of\<close>.
  A JavaScript \<open>Set\<close> is a list in insertion order. An array held by a map and spliced
  in place is an update of the map at that key. \<open>indexOf\<close> followed by \<open>splice(idx, 1)\<close>
  is \<open>remove1\<close>: only the first occurrence goes.
\<close>

type_synonym path = string

definition set_add :: "'a \<Rightarrow> 'a list \<Rightarrow> 'a list" where
  "set_add x xs = (if x \<in> set xs then xs else xs @ [x])"

definition get_or_empty :: "('k \<times> 'v list) list \<Rightarrow> 'k \<Rightarrow> 'v list" where
  "get_or_empty m k = (case map_of m k of Some v \<Rightarrow> v | None \<Rightarrow> [])"

definition has_key :: "('k \<times> 'v) list \<Rightarrow> 'k \<Rightarrow> bool" where
  "has_key m k = (map_of m k \<noteq> None)"

section \<open>Data model\<close>

record CondensedNode =
  node_index :: nat
  node_files :: "path list"
  node_size :: nat
  isCyclic :: bool

record CondensedDAG =
  nodes :: "CondensedNode list"
  dag_forward :: "(nat \<times> nat list) list"
  dag_reverse :: "(nat \<times> nat list) list"
  topologicalOrder :: "nat list"

record SCCResult =
  components :: "path list list"
  nodeToComponent :: "(path \<times> nat) list"
  condensed :: CondensedDAG

record DependencyGraph =
  forward :: "(path \<times> path list) list"
  reverse :: "(path \<times> path list) list"
  files :: "path list"
  scc :: "SCCResult option"

record IncrementalUpdateResult =
  updatedFile :: path
  addedEdges :: "(path \<times> path) list"
  removedEdges :: "(path \<times> path) list"
  edgesChanged :: bool
  affectedFiles :: "path list"

text \<open>
  What the code takes from outside: \<open>getPluginForFile\<close> with the plugin's
  \<open>parseImports\<close> (\<open>None\<close> when no plugin handles the file's extension), and the two
  path conversions of the analyser, \<open>path.relative(graph.sourceDir, f)\<close> and
  \<open>path.normalize(path.join(graph.sourceDir, rel))\<close>.
\<close>

record host =
  parseImports :: "path \<Rightarrow> path list option"
  toRelative :: "path \<Rightarrow> path"
  toAbsolute :: "path \<Rightarrow> path"

section \<open>SCC engine\<close>

subsection \<open>Kahn's topological sort\<close>

definition degree_of :: "(nat \<times> int) list \<Rightarrow> nat \<Rightarrow> int" where
  "degree_of inDegree k = (case map_of inDegree k of Some d \<Rightarrow> d | None \<Rightarrow> 0)"

text \<open>The inner \<open>for (const dependent of dependents)\<close> of the while loop.\<close>

fun decrementDependents ::
  "nat list \<Rightarrow> (nat \<times> int) list \<times> nat list \<Rightarrow> (nat \<times> int) list \<times> nat list" where
  "decrementDependents [] (inDegree, queue) = (inDegree, queue)"
| "decrementDependents (dep # rest) (inDegree, queue) =
     (let newDegree = degree_of inDegree dep - 1
      in decrementDependents rest
           (AList.update dep newDegree inDegree,
            if newDegree = 0 then queue @ [dep] else queue))"

definition positive_entries :: "(nat \<times> int) list \<Rightarrow> nat" where
  "positive_entries inDegree = length (filter (\<lambda>p. 0 < snd p) inDegree)"

lemma positive_entries_pos:
  "degree_of m k = 1 \<Longrightarrow> 0 < positive_entries m"
  by (induction m) (auto simp: positive_entries_def degree_of_def split: if_splits)

lemma positive_entries_update:
  "positive_entries (AList.update k (degree_of m k - 1) m) =
     (if degree_of m k = 1 then positive_entries m - 1 else positive_entries m)"
proof (induction m)
  case Nil
  then show ?case by (simp add: positive_entries_def degree_of_def)
next
  case (Cons p m)
  show ?case
  proof (cases "fst p = k")
    case True
    then show ?thesis by (cases p) (auto simp: positive_entries_def degree_of_def)
  next
    case False
    then have d: "degree_of (p # m) k = degree_of m k"
      by (cases p) (auto simp: degree_of_def)
    have "degree_of m k = 1 \<Longrightarrow> 0 < positive_entries m"
      by (rule positive_entries_pos)
    then show ?thesis
      using False Cons.IH d
      by (cases p) (auto simp: positive_entries_def)
  qed
qed

lemma decrementDependents_measure:
  "decrementDependents ds (m, q) = (m', q') \<Longrightarrow>
     2 * positive_entries m' + length q' \<le> 2 * positive_entries m + length q"
proof (induction ds arbitrary: m q)
  case Nil
  then show ?case by simp
next
  case (Cons d ds)
  let ?nd = "degree_of m d - 1"
  let ?m1 = "AList.update d ?nd m"
  let ?q1 = "if ?nd = 0 then q @ [d] else q"
  from Cons.prems have "decrementDependents ds (?m1, ?q1) = (m', q')"
    by (simp add: Let_def)
  from Cons.IH[OF this]
  have "2 * positive_entries m' + length q' \<le> 2 * positive_entries ?m1 + length ?q1" .
  moreover have "2 * positive_entries ?m1 + length ?q1 \<le> 2 * positive_entries m + length q"
    using positive_entries_update[of d m] positive_entries_pos[of m d] by (auto split: if_splits)
  ultimately show ?case by linarith
qed

function kahnLoop ::
  "(nat \<times> nat list) list \<Rightarrow> (nat \<times> int) list \<Rightarrow> nat list \<Rightarrow> nat list \<Rightarrow> nat list" where
  "kahnLoop dependentsOf inDegree [] order = order"
| "kahnLoop dependentsOf inDegree (current # queue) order =
     (case decrementDependents (get_or_empty dependentsOf current) (inDegree, queue) of
        (inDegree', queue') \<Rightarrow> kahnLoop dependentsOf inDegree' queue' (order @ [current]))"
  by pat_completeness auto
termination
proof (relation "measure (\<lambda>(dependentsOf, inDegree, queue, order). 2 * positive_entries inDegree + length queue)",
       goal_cases)
  case 1
  then show ?case by simp
next
  case (2 dependentsOf inDegree current queue order inDegree' queue')
  then have "decrementDependents (get_or_empty dependentsOf current) (inDegree, queue) = (inDegree', queue')"
    by simp
  from decrementDependents_measure[OF this] show ?case by simp
qed

definition initialInDegree :: "CondensedDAG \<Rightarrow> (nat \<times> int) list" where
  "initialInDegree dag =
     fold (\<lambda>(src, dsts) inDegree.
             AList.update src (degree_of inDegree src + int (length dsts)) inDegree)
          (dag_forward dag)
          (map (\<lambda>i. (i, 0)) [0..<length (nodes dag)])"

definition topologicalSort :: "CondensedDAG \<Rightarrow> nat list" where
  "topologicalSort dag =
     (let numNodes = length (nodes dag) in
      if numNodes = 0 then []
      else
        let inDegree = initialInDegree dag;
            queue = map fst (filter (\<lambda>(node, degree). degree = 0) inDegree);
            order = kahnLoop (dag_reverse dag) inDegree queue []
        in if length order \<noteq> numNodes
           then order @ filter (\<lambda>i. i \<notin> set order) [0..<numNodes]
           else order)"

subsection \<open>Condensation\<close>

text \<open>
  \<open>forwardSets.get(srcSCC)!.add(dstSCC)\<close>: the set stored under the key takes the new
  member; a missing key would dereference \<open>undefined\<close> and throw, which is \<open>None\<close>.
\<close>

definition add_to_set_at ::
  "nat \<Rightarrow> nat \<Rightarrow> (nat \<times> nat list) list \<Rightarrow> (nat \<times> nat list) list option" where
  "add_to_set_at k v m =
     (case map_of m k of
        None \<Rightarrow> None
      | Some s \<Rightarrow> Some (AList.update k (set_add v s) m))"

fun addDeps ::
  "(path \<times> nat) list \<Rightarrow> nat \<Rightarrow> path list \<Rightarrow>
   (nat \<times> nat list) list \<times> (nat \<times> nat list) list \<Rightarrow>
   ((nat \<times> nat list) list \<times> (nat \<times> nat list) list) option" where
  "addDeps ntc srcSCC [] acc = Some acc"
| "addDeps ntc srcSCC (dep # deps) (forwardSets, reverseSets) =
     (case map_of ntc dep of
        None \<Rightarrow> addDeps ntc srcSCC deps (forwardSets, reverseSets)
      | Some dstSCC \<Rightarrow>
          if srcSCC = dstSCC then addDeps ntc srcSCC deps (forwardSets, reverseSets)
          else
            (case add_to_set_at srcSCC dstSCC forwardSets of
               None \<Rightarrow> None
             | Some forwardSets' \<Rightarrow>
                 (case add_to_set_at dstSCC srcSCC reverseSets of
                    None \<Rightarrow> None
                  | Some reverseSets' \<Rightarrow>
                      addDeps ntc srcSCC deps (forwardSets', reverseSets'))))"

fun addEdges ::
  "(path \<times> nat) list \<Rightarrow> (path \<times> path list) list \<Rightarrow>
   (nat \<times> nat list) list \<times> (nat \<times> nat list) list \<Rightarrow>
   ((nat \<times> nat list) list \<times> (nat \<times> nat list) list) option" where
  "addEdges ntc [] acc = Some acc"
| "addEdges ntc ((file, deps) # rest) acc =
     (case map_of ntc file of
        None \<Rightarrow> addEdges ntc rest acc
      | Some srcSCC \<Rightarrow>
          (case addDeps ntc srcSCC deps acc of
             None \<Rightarrow> None
           | Some acc' \<Rightarrow> addEdges ntc rest acc'))"

definition condensedNodes :: "path list list \<Rightarrow> CondensedNode list" where
  "condensedNodes comps =
     map (\<lambda>(index, fs). \<lparr>node_index = index, node_files = fs,
                          node_size = length fs, isCyclic = (1 < length fs)\<rparr>)
         (enumerate 0 comps)"

definition condenseGraph ::
  "DependencyGraph \<Rightarrow> path list list \<Rightarrow> (path \<times> nat) list \<Rightarrow> CondensedDAG option" where
  "condenseGraph graph comps ntc =
     (let numComponents = length comps;
          empty = map (\<lambda>i. (i, [])) [0..<numComponents]
      in case addEdges ntc (forward graph) (empty, empty) of
           None \<Rightarrow> None
         | Some (forwardSets, reverseSets) \<Rightarrow>
             let dag = \<lparr>nodes = condensedNodes comps, dag_forward = forwardSets,
                        dag_reverse = reverseSets, topologicalOrder = []\<rparr>
             in Some (dag\<lparr>topologicalOrder := topologicalSort dag\<rparr>))"

subsection \<open>Tarjan's algorithm\<close>

text \<open>
  The closure variables of \<open>computeSCC\<close> are a record passed through the recursion. The
  array \<open>stack\<close> has its top at the head of the list. \<open>strongConnect\<close> recurses on
  unvisited successors, so the model takes fuel, one unit for each level of nesting;
  \<open>None\<close> stands for a run that does not return. The entries read with a non-null
  assertion (\<open>nodeLowlink.get(node)!\<close> and the like) have all been written before they
  are read, so \<open>val_of\<close> never takes its default there.
\<close>

record tarjan =
  indexCounter :: nat
  nodeIndex :: "(path \<times> nat) list"
  nodeLowlink :: "(path \<times> nat) list"
  onStack :: "path list"
  stack :: "path list"
  found :: "path list list"

definition val_of :: "(path \<times> nat) list \<Rightarrow> path \<Rightarrow> nat" where
  "val_of m k = (case map_of m k of Some v \<Rightarrow> v | None \<Rightarrow> 0)"

text \<open>
  The \<open>do ... while (w !== node)\<close> loop. On an empty stack \<open>pop\<close> would give
  \<open>undefined\<close> for ever; that run does not return.
\<close>

fun popComponent ::
  "path \<Rightarrow> path list \<Rightarrow> path list \<Rightarrow> path list \<Rightarrow>
   (path list \<times> path list \<times> path list) option" where
  "popComponent node [] onSt component = None"
| "popComponent node (w # rest) onSt component =
     (let onSt' = removeAll w onSt; component' = component @ [w]
      in if w = node then Some (component', rest, onSt')
         else popComponent node rest onSt' component')"

definition enter :: "path \<Rightarrow> tarjan \<Rightarrow> tarjan" where
  "enter node st =
     st\<lparr>nodeIndex := AList.update node (indexCounter st) (nodeIndex st),
        nodeLowlink := AList.update node (indexCounter st) (nodeLowlink st),
        indexCounter := indexCounter st + 1,
        stack := node # stack st,
        onStack := set_add node (onStack st)\<rparr>"

definition lower :: "path \<Rightarrow> nat \<Rightarrow> tarjan \<Rightarrow> tarjan" where
  "lower node v st =
     st\<lparr>nodeLowlink := AList.update node (min (val_of (nodeLowlink st) node) v) (nodeLowlink st)\<rparr>"

definition finish :: "path \<Rightarrow> tarjan \<Rightarrow> tarjan option" where
  "finish node st =
     (if val_of (nodeLowlink st) node = val_of (nodeIndex st) node
      then (case popComponent node (stack st) (onStack st) [] of
              None \<Rightarrow> None
            | Some (component, stack', onSt') \<Rightarrow>
                Some (st\<lparr>stack := stack', onStack := onSt', found := found st @ [component]\<rparr>))
      else Some st)"

fun strongConnect :: "nat \<Rightarrow> DependencyGraph \<Rightarrow> path \<Rightarrow> tarjan \<Rightarrow> tarjan option"
and visitSuccessors ::
  "nat \<Rightarrow> DependencyGraph \<Rightarrow> path \<Rightarrow> path list \<Rightarrow> tarjan \<Rightarrow> tarjan option" where
  "strongConnect 0 graph node st = None"
| "strongConnect (Suc n) graph node st =
     (case visitSuccessors n graph node (get_or_empty (forward graph) node) (enter node st) of
        None \<Rightarrow> None
      | Some st' \<Rightarrow> finish node st')"
| "visitSuccessors n graph node [] st = Some st"
| "visitSuccessors n graph node (successor # rest) st =
     (if successor \<notin> set (files graph) then visitSuccessors n graph node rest st
      else if \<not> has_key (nodeIndex st) successor then
        (case strongConnect n graph successor st of
           None \<Rightarrow> None
         | Some st' \<Rightarrow>
             visitSuccessors n graph node rest
               (lower node (val_of (nodeLowlink st') successor) st'))
      else if successor \<in> set (onStack st) then
        visitSuccessors n graph node rest (lower node (val_of (nodeIndex st) successor) st)
      else visitSuccessors n graph node rest st)"

fun visitAll :: "nat \<Rightarrow> DependencyGraph \<Rightarrow> path list \<Rightarrow> tarjan \<Rightarrow> tarjan option" where
  "visitAll n graph [] st = Some st"
| "visitAll n graph (file # rest) st =
     (if has_key (nodeIndex st) file then visitAll n graph rest st
      else (case strongConnect n graph file st of
              None \<Rightarrow> None
            | Some st' \<Rightarrow> visitAll n graph rest st'))"

definition buildNodeToComponent :: "path list list \<Rightarrow> (path \<times> nat) list" where
  "buildNodeToComponent comps =
     fold (\<lambda>(i, component) m. fold (\<lambda>file. AList.update file i) component m)
          (enumerate 0 comps) []"

definition emptyTarjan :: tarjan where
  "emptyTarjan = \<lparr>indexCounter = 0, nodeIndex = [], nodeLowlink = [], onStack = [],
                   stack = [], found = []\<rparr>"

definition computeSCC :: "DependencyGraph \<Rightarrow> SCCResult option" where
  "computeSCC graph =
     (if files graph = [] then
        Some \<lparr>components = [], nodeToComponent = [],
              condensed = \<lparr>nodes = [], dag_forward = [], dag_reverse = [],
                           topologicalOrder = []\<rparr>\<rparr>
      else
        (case visitAll (Suc (length (files graph))) graph (files graph) emptyTarjan of
           None \<Rightarrow> None
         | Some st \<Rightarrow>
             let comps = found st; ntc = buildNodeToComponent comps
             in (case condenseGraph graph comps ntc of
                   None \<Rightarrow> None
                 | Some dag \<Rightarrow>
                     Some \<lparr>components = comps, nodeToComponent = ntc, condensed = dag\<rparr>)))"

section \<open>Incremental updater\<close>

subsection \<open>Reverse transitive closure\<close>

definition targets :: "('k \<times> 'v list) list \<Rightarrow> 'v set" where
  "targets m = (\<Union>p \<in> set m. set (snd p))"

lemma finite_targets: "finite (targets m)"
  by (simp add: targets_def)

lemma get_or_empty_targets: "set (get_or_empty m k) \<subseteq> targets m"
proof (cases "map_of m k")
  case None
  then show ?thesis by (simp add: get_or_empty_def)
next
  case (Some v)
  then have "(k, v) \<in> set m" by (rule map_of_SomeD)
  then show ?thesis using Some by (force simp: get_or_empty_def targets_def)
qed

fun visitDependents ::
  "path list \<Rightarrow> path list \<times> path list \<Rightarrow> path list \<times> path list" where
  "visitDependents [] (affected, queue) = (affected, queue)"
| "visitDependents (dep # rest) (affected, queue) =
     (if dep \<in> set affected then visitDependents rest (affected, queue)
      else visitDependents rest (affected @ [dep], queue @ [dep]))"

lemma card_diff_insert_less:
  assumes "finite U" "x \<in> U" "x \<notin> A"
  shows "card (U - insert x A) < card (U - A)"
proof -
  have "U - insert x A \<subset> U - A" using assms by auto
  then show ?thesis using assms(1) by (simp add: psubset_card_mono)
qed

lemma visitDependents_measure:
  "visitDependents ds (a, q) = (a', q') \<Longrightarrow> finite U \<Longrightarrow> set ds \<subseteq> U \<Longrightarrow>
     2 * card (U - set a') + length q' \<le> 2 * card (U - set a) + length q"
proof (induction ds arbitrary: a q)
  case Nil
  then show ?case by simp
next
  case (Cons d ds)
  show ?case
  proof (cases "d \<in> set a")
    case True
    with Cons show ?thesis by simp
  next
    case False
    with Cons.prems have "visitDependents ds (a @ [d], q @ [d]) = (a', q')" by simp
    from Cons.IH[OF this] Cons.prems
    have "2 * card (U - set a') + length q' \<le> 2 * card (U - set (a @ [d])) + length (q @ [d])"
      by simp
    moreover have "card (U - set (a @ [d])) < card (U - set a)"
      using card_diff_insert_less[of U d "set a"] False Cons.prems by simp
    ultimately show ?thesis by simp
  qed
qed

function affectedLoop ::
  "(path \<times> path list) list \<Rightarrow> path list \<Rightarrow> path list \<Rightarrow> path list" where
  "affectedLoop rv affected [] = affected"
| "affectedLoop rv affected (current # queue) =
     (case visitDependents (get_or_empty rv current) (affected, queue) of
        (affected', queue') \<Rightarrow> affectedLoop rv affected' queue')"
  by pat_completeness auto
termination
proof (relation "measure (\<lambda>(rv, affected, queue). 2 * card (targets rv - set affected) + length queue)",
       goal_cases)
  case 1
  then show ?case by simp
next
  case (2 rv affected current queue affected' queue')
  then have "visitDependents (get_or_empty rv current) (affected, queue) = (affected', queue')"
    by simp
  from visitDependents_measure[OF this finite_targets get_or_empty_targets]
  show ?case by simp
qed

definition computeAffectedFiles :: "path \<Rightarrow> DependencyGraph \<Rightarrow> path list" where
  "computeAffectedFiles filePath graph = affectedLoop (reverse graph) [filePath] [filePath]"

subsection \<open>The three operations\<close>

definition recomputeGraphMetrics :: "DependencyGraph \<Rightarrow> DependencyGraph" where
  "recomputeGraphMetrics graph = graph\<lparr>scc := computeSCC graph\<rparr>"

definition noChange :: "path \<Rightarrow> IncrementalUpdateResult" where
  "noChange f = \<lparr>updatedFile = f, addedEdges = [], removedEdges = [],
                  edgesChanged = False, affectedFiles = []\<rparr>"

text \<open>Taking \<open>normalized\<close> out of the reverse list of \<open>dep\<close>, and putting it in.\<close>

definition dropReverse :: "path \<Rightarrow> path \<Rightarrow> (path \<times> path list) list \<Rightarrow> (path \<times> path list) list" where
  "dropReverse normalized dep rv =
     (case map_of rv dep of
        None \<Rightarrow> rv
      | Some revList \<Rightarrow> AList.update dep (remove1 normalized revList) rv)"

definition pushReverse :: "path \<Rightarrow> path \<Rightarrow> (path \<times> path list) list \<Rightarrow> (path \<times> path list) list" where
  "pushReverse normalized dep rv =
     (case map_of rv dep of
        Some revList \<Rightarrow>
          if normalized \<in> set revList then rv
          else AList.update dep (revList @ [normalized]) rv
      | None \<Rightarrow> AList.update dep [normalized] rv)"

text \<open>
  \<open>updateGraphForFile\<close> and \<open>addFileToGraph\<close> call each other on the opposite answer of
  \<open>graph.files.has\<close>; \<open>updateKnown\<close> and \<open>addUnknown\<close> are their bodies after that test.
\<close>

definition updateKnown ::
  "host \<Rightarrow> DependencyGraph \<Rightarrow> path \<Rightarrow> DependencyGraph \<times> IncrementalUpdateResult" where
  "updateKnown h graph normalized =
     (let oldDeps = get_or_empty (forward graph) normalized in
      case parseImports h normalized of
        None \<Rightarrow> (graph, noChange normalized)
      | Some rawImports \<Rightarrow>
          let newDeps = filter (\<lambda>imp. imp \<in> set (files graph)) rawImports;
              added = map (Pair normalized) (filter (\<lambda>dep. dep \<notin> set oldDeps) newDeps);
              removed = map (Pair normalized) (filter (\<lambda>dep. dep \<notin> set newDeps) oldDeps);
              changed = (added \<noteq> [] \<or> removed \<noteq> []);
              fw = AList.update normalized newDeps (forward graph);
              rv1 = fold (\<lambda>(_, dep). dropReverse normalized dep) removed (reverse graph);
              rv2 = fold (\<lambda>(_, dep). pushReverse normalized dep) added rv1;
              graph' = graph\<lparr>forward := fw, reverse := rv2\<rparr>;
              affected = computeAffectedFiles normalized graph'
          in (if changed then recomputeGraphMetrics graph' else graph',
              \<lparr>updatedFile = normalized, addedEdges = added, removedEdges = removed,
               edgesChanged = changed, affectedFiles = affected\<rparr>))"

definition addUnknown ::
  "host \<Rightarrow> DependencyGraph \<Rightarrow> path \<Rightarrow> DependencyGraph \<times> IncrementalUpdateResult" where
  "addUnknown h graph normalized =
     (let graph1 = graph\<lparr>files := set_add normalized (files graph),
                          forward := AList.update normalized [] (forward graph),
                          reverse := (if has_key (reverse graph) normalized then reverse graph
                                      else AList.update normalized [] (reverse graph))\<rparr> in
      case parseImports h normalized of
        None \<Rightarrow> (graph1, noChange normalized)
      | Some rawImports \<Rightarrow>
          let newDeps = filter (\<lambda>imp. imp \<in> set (files graph1)) rawImports;
              added = map (Pair normalized) newDeps;
              graph' = graph1\<lparr>forward := AList.update normalized newDeps (forward graph1),
                              reverse := fold (pushReverse normalized) newDeps (reverse graph1)\<rparr>;
              changed = (added \<noteq> []);
              affected = computeAffectedFiles normalized graph'
          in (if changed then recomputeGraphMetrics graph' else graph',
              \<lparr>updatedFile = normalized, addedEdges = added, removedEdges = [],
               edgesChanged = changed, affectedFiles = affected\<rparr>))"

definition updateGraphForFile ::
  "host \<Rightarrow> DependencyGraph \<Rightarrow> path \<Rightarrow> DependencyGraph \<times> IncrementalUpdateResult" where
  "updateGraphForFile h graph filePath =
     (if filePath \<notin> set (files graph) then addUnknown h graph filePath
      else updateKnown h graph filePath)"

definition addFileToGraph ::
  "host \<Rightarrow> DependencyGraph \<Rightarrow> path \<Rightarrow> DependencyGraph \<times> IncrementalUpdateResult" where
  "addFileToGraph h graph filePath =
     (if filePath \<in> set (files graph) then updateKnown h graph filePath
      else addUnknown h graph filePath)"

definition dropForward :: "path \<Rightarrow> path \<Rightarrow> (path \<times> path list) list \<Rightarrow> (path \<times> path list) list" where
  "dropForward normalized src fw =
     (case map_of fw src of
        None \<Rightarrow> fw
      | Some fwdList \<Rightarrow> AList.update src (remove1 normalized fwdList) fw)"

definition removeFileFromGraph ::
  "DependencyGraph \<Rightarrow> path \<Rightarrow> DependencyGraph \<times> IncrementalUpdateResult" where
  "removeFileFromGraph graph normalized =
     (if normalized \<notin> set (files graph) then (graph, noChange normalized)
      else
        let affected = computeAffectedFiles normalized graph;
            forwardDeps = get_or_empty (forward graph) normalized;
            rv1 = fold (dropReverse normalized) forwardDeps (reverse graph);
            reverseDeps = get_or_empty rv1 normalized;
            fw1 = fold (dropForward normalized) reverseDeps (forward graph);
            removed = map (Pair normalized) forwardDeps @ map (\<lambda>src. (src, normalized)) reverseDeps;
            graph' = graph\<lparr>forward := AList.delete normalized fw1,
                            reverse := AList.delete normalized rv1,
                            files := removeAll normalized (files graph)\<rparr>;
            changed = (removed \<noteq> [])
        in (if changed then recomputeGraphMetrics graph' else graph',
            \<lparr>updatedFile = normalized, addedEdges = [], removedEdges = removed,
             edgesChanged = changed, affectedFiles = affected\<rparr>))"

section \<open>Memo cache\<close>

datatype RiskLevel = HIGH | MEDIUM | LOW | NONE

record MemoEntry =
  impactSet :: "path list"
  directCount :: nat
  transitiveCount :: nat
  entry_riskLevel :: RiskLevel
  entry_cascadeLevels :: "(path \<times> nat) list option"
  computedAt :: nat

text \<open>The closure variables of \<open>createMemoCache\<close>, with its parameter \<open>maxSize\<close>.\<close>

record MemoCache =
  cache :: "(path \<times> MemoEntry) list"
  accessOrder :: "path list"
  reverseIndex :: "(path \<times> path list) list"
  hits :: nat
  misses :: nat
  maxSize :: nat

definition createMemoCache :: "nat \<Rightarrow> MemoCache" where
  "createMemoCache n = \<lparr>cache = [], accessOrder = [], reverseIndex = [],
                         hits = 0, misses = 0, maxSize = n\<rparr>"

definition touchKey :: "path \<Rightarrow> MemoCache \<Rightarrow> MemoCache" where
  "touchKey key mc = mc\<lparr>accessOrder := remove1 key (accessOrder mc) @ [key]\<rparr>"

text \<open>\<open>keys.delete(key)\<close> on the set stored under \<open>file\<close>, dropping the set once empty.\<close>

definition dropIndex :: "path \<Rightarrow> path \<Rightarrow> (path \<times> path list) list \<Rightarrow> (path \<times> path list) list" where
  "dropIndex key file ri =
     (case map_of ri file of
        None \<Rightarrow> ri
      | Some keys \<Rightarrow>
          let keys' = removeAll key keys
          in if keys' = [] then AList.delete file ri else AList.update file keys' ri)"

definition removeEntry :: "path \<Rightarrow> MemoCache \<Rightarrow> MemoCache" where
  "removeEntry key mc =
     (case map_of (cache mc) key of
        None \<Rightarrow> mc
      | Some entry \<Rightarrow>
          mc\<lparr>reverseIndex :=
                dropIndex key key (fold (dropIndex key) (impactSet entry) (reverseIndex mc)),
             cache := AList.delete key (cache mc),
             accessOrder := remove1 key (accessOrder mc)\<rparr>)"

lemma accessOrder_removeEntry:
  "length (accessOrder (removeEntry key mc)) \<le> length (accessOrder mc)"
  by (auto simp: removeEntry_def length_remove1 split: option.splits)

function evictLRU :: "MemoCache \<Rightarrow> MemoCache" where
  "evictLRU mc =
     (if maxSize mc < length (cache mc) \<and> accessOrder mc \<noteq> []
      then evictLRU (removeEntry (hd (accessOrder mc)) (mc\<lparr>accessOrder := tl (accessOrder mc)\<rparr>))
      else mc)"
  by pat_completeness auto
termination
proof (relation "measure (\<lambda>mc. length (accessOrder mc))", goal_cases)
  case 1
  then show ?case by simp
next
  case (2 mc)
  have "length (accessOrder (removeEntry (hd (accessOrder mc)) (mc\<lparr>accessOrder := tl (accessOrder mc)\<rparr>)))
          \<le> length (tl (accessOrder mc))"
    using accessOrder_removeEntry[of "hd (accessOrder mc)" "mc\<lparr>accessOrder := tl (accessOrder mc)\<rparr>"]
    by simp
  moreover have "length (tl (accessOrder mc)) < length (accessOrder mc)"
    using 2 by (cases "accessOrder mc") auto
  ultimately show ?case by simp
qed

declare evictLRU.simps [simp del]

definition addToReverseIndex :: "path \<Rightarrow> path \<Rightarrow> (path \<times> path list) list \<Rightarrow> (path \<times> path list) list" where
  "addToReverseIndex file cacheKey ri =
     (case map_of ri file of
        None \<Rightarrow> AList.update file [cacheKey] ri
      | Some keys \<Rightarrow> AList.update file (set_add cacheKey keys) ri)"

definition memo_get :: "path \<Rightarrow> MemoCache \<Rightarrow> MemoEntry option \<times> MemoCache" where
  "memo_get filePath mc =
     (case map_of (cache mc) filePath of
        Some entry \<Rightarrow> (Some entry, touchKey filePath (mc\<lparr>hits := hits mc + 1\<rparr>))
      | None \<Rightarrow> (None, mc\<lparr>misses := misses mc + 1\<rparr>))"

definition memo_set :: "path \<Rightarrow> MemoEntry \<Rightarrow> MemoCache \<Rightarrow> MemoCache" where
  "memo_set filePath entry mc =
     (let mc1 = (if has_key (cache mc) filePath then removeEntry filePath mc else mc);
          mc2 = touchKey filePath (mc1\<lparr>cache := AList.update filePath entry (cache mc1)\<rparr>);
          mc3 = mc2\<lparr>reverseIndex :=
                      addToReverseIndex filePath filePath
                        (fold (\<lambda>file. addToReverseIndex file filePath) (impactSet entry)
                              (reverseIndex mc2))\<rparr>
      in evictLRU mc3)"

definition keysToInvalidate :: "path list \<Rightarrow> MemoCache \<Rightarrow> path list" where
  "keysToInvalidate affected mc =
     fold (\<lambda>file acc. case map_of (reverseIndex mc) file of
                         None \<Rightarrow> acc
                       | Some keys \<Rightarrow> fold set_add keys acc)
          affected []"

definition invalidate :: "path list \<Rightarrow> MemoCache \<Rightarrow> nat \<times> MemoCache" where
  "invalidate affected mc =
     (let ks = keysToInvalidate affected mc
      in (length ks, fold removeEntry ks mc))"

definition invalidateAll :: "MemoCache \<Rightarrow> MemoCache" where
  "invalidateAll mc = mc\<lparr>cache := [], accessOrder := [], reverseIndex := []\<rparr>"

definition stats :: "MemoCache \<Rightarrow> nat \<times> nat \<times> nat" where
  "stats mc = (length (cache mc), hits mc, misses mc)"

section \<open>Impact analyser\<close>

datatype error = TypeError | FileNotInGraph path

record ImpactResult =
  filePath :: path
  relativePath :: path
  riskLevel :: RiskLevel
  directDependents :: "path list"
  transitiveDependents :: "path list"
  totalImpacted :: nat
  cascadeLevels :: "(path \<times> nat) list option"
  circularCluster :: "path list option"
  sccCount :: "nat option"
  cyclicSCCs :: "nat option"
  fromCache :: "bool option"

definition classifyRisk :: "nat \<Rightarrow> RiskLevel" where
  "classifyRisk count =
     (if 10 \<le> count then HIGH else if 5 \<le> count then MEDIUM
      else if 1 \<le> count then LOW else NONE)"

subsection \<open>Plain reverse BFS\<close>

fun visitImpacted ::
  "path \<Rightarrow> path list \<Rightarrow> path list \<times> path list \<Rightarrow> path list \<times> path list" where
  "visitImpacted normalized [] (visited, queue) = (visited, queue)"
| "visitImpacted normalized (dep # rest) (visited, queue) =
     (if dep \<notin> set visited \<and> dep \<noteq> normalized
      then visitImpacted normalized rest (visited @ [dep], queue @ [dep])
      else visitImpacted normalized rest (visited, queue))"

lemma visitImpacted_measure:
  "visitImpacted f ds (a, q) = (a', q') \<Longrightarrow> finite U \<Longrightarrow> set ds \<subseteq> U \<Longrightarrow>
     2 * card (U - set a') + length q' \<le> 2 * card (U - set a) + length q"
proof (induction ds arbitrary: a q)
  case Nil
  then show ?case by simp
next
  case (Cons d ds)
  show ?case
  proof (cases "d \<notin> set a \<and> d \<noteq> f")
    case False
    with Cons show ?thesis by auto
  next
    case True
    with Cons.prems have "visitImpacted f ds (a @ [d], q @ [d]) = (a', q')" by simp
    from Cons.IH[OF this] Cons.prems
    have "2 * card (U - set a') + length q' \<le> 2 * card (U - set (a @ [d])) + length (q @ [d])"
      by simp
    moreover have "card (U - set (a @ [d])) < card (U - set a)"
      using card_diff_insert_less[of U d "set a"] True Cons.prems by simp
    ultimately show ?thesis by simp
  qed
qed

function impactLoop ::
  "path \<Rightarrow> (path \<times> path list) list \<Rightarrow> path list \<Rightarrow> path list \<Rightarrow> path list" where
  "impactLoop normalized rv visited [] = visited"
| "impactLoop normalized rv visited (current # queue) =
     (case visitImpacted normalized (get_or_empty rv current) (visited, queue) of
        (visited', queue') \<Rightarrow> impactLoop normalized rv visited' queue')"
  by pat_completeness auto
termination
proof (relation "measure (\<lambda>(f, rv, visited, queue). 2 * card (targets rv - set visited) + length queue)",
       goal_cases)
  case 1
  then show ?case by simp
next
  case (2 f rv visited current queue visited' queue')
  then have "visitImpacted f (get_or_empty rv current) (visited, queue) = (visited', queue')"
    by simp
  from visitImpacted_measure[OF this finite_targets get_or_empty_targets]
  show ?case by simp
qed

definition analyzeImpactBFS :: "host \<Rightarrow> path \<Rightarrow> DependencyGraph \<Rightarrow> ImpactResult" where
  "analyzeImpactBFS h normalized graph =
     (let direct = get_or_empty (reverse graph) normalized;
          visited = impactLoop normalized (reverse graph) (fold set_add direct []) direct;
          total = length visited;
          transitive = filter (\<lambda>f. f \<notin> set direct) visited
      in \<lparr>filePath = normalized, relativePath = toRelative h normalized,
          riskLevel = classifyRisk total,
          directDependents = map (toRelative h) direct,
          transitiveDependents = map (toRelative h) transitive,
          totalImpacted = total,
          cascadeLevels = None, circularCluster = None, sccCount = None, cyclicSCCs = None,
          fromCache = None\<rparr>)"

subsection \<open>SCC-aware analysis\<close>

fun visitDependentSCCs ::
  "nat \<Rightarrow> nat list \<Rightarrow> (nat \<times> nat) list \<times> (nat \<times> nat) list \<Rightarrow>
   (nat \<times> nat) list \<times> (nat \<times> nat) list" where
  "visitDependentSCCs level [] (visitedSCCs, queue) = (visitedSCCs, queue)"
| "visitDependentSCCs level (depSCC # rest) (visitedSCCs, queue) =
     (if \<not> has_key visitedSCCs depSCC
      then visitDependentSCCs level rest
             (AList.update depSCC (level + 1) visitedSCCs, queue @ [(depSCC, level + 1)])
      else visitDependentSCCs level rest (visitedSCCs, queue))"

lemma has_key_iff: "has_key m k \<longleftrightarrow> k \<in> fst ` set m"
  by (simp add: has_key_def map_of_eq_None_iff)

lemma visitDependentSCCs_measure:
  "visitDependentSCCs l ds (v, q) = (v', q') \<Longrightarrow> finite U \<Longrightarrow> set ds \<subseteq> U \<Longrightarrow>
     2 * card (U - fst ` set v') + length q' \<le> 2 * card (U - fst ` set v) + length q"
proof (induction ds arbitrary: v q)
  case Nil
  then show ?case by simp
next
  case (Cons d ds)
  show ?case
  proof (cases "has_key v d")
    case True
    with Cons show ?thesis by simp
  next
    case False
    let ?v1 = "AList.update d (l + 1) v"
    from False Cons.prems have "visitDependentSCCs l ds (?v1, q @ [(d, l + 1)]) = (v', q')"
      by simp
    from Cons.IH[OF this] Cons.prems
    have "2 * card (U - fst ` set v') + length q'
            \<le> 2 * card (U - fst ` set ?v1) + length (q @ [(d, l + 1)])"
      by simp
    moreover have "fst ` set ?v1 = insert d (fst ` set v)"
      by (simp add: dom_update)
    moreover have "card (U - insert d (fst ` set v)) < card (U - fst ` set v)"
      using card_diff_insert_less[of U d "fst ` set v"] False Cons.prems
      by (simp add: has_key_iff)
    ultimately show ?thesis by simp
  qed
qed

function sccLoop ::
  "(nat \<times> nat list) list \<Rightarrow> (nat \<times> nat) list \<Rightarrow> (nat \<times> nat) list \<Rightarrow> (nat \<times> nat) list" where
  "sccLoop rv visitedSCCs [] = visitedSCCs"
| "sccLoop rv visitedSCCs ((sccIdx, level) # queue) =
     (case visitDependentSCCs level (get_or_empty rv sccIdx) (visitedSCCs, queue) of
        (visitedSCCs', queue') \<Rightarrow> sccLoop rv visitedSCCs' queue')"
  by pat_completeness auto
termination
proof (relation "measure (\<lambda>(rv, visited, queue). 2 * card (targets rv - fst ` set visited) + length queue)",
       goal_cases)
  case 1
  then show ?case by simp
next
  case (2 rv visited sccIdx level queue visited' queue')
  then have "visitDependentSCCs level (get_or_empty rv sccIdx) (visited, queue) = (visited', queue')"
    by simp
  from visitDependentSCCs_measure[OF this finite_targets get_or_empty_targets]
  show ?case by simp
qed

text \<open>
  Expanding the visited SCCs to files. \<open>condensed.nodes[sccIdx]\<close> out of range is
  \<open>undefined\<close>, and reading \<open>.files\<close> of it throws.
\<close>

fun expandFiles ::
  "path \<Rightarrow> nat \<Rightarrow> path list \<Rightarrow> path list \<times> (path \<times> nat) list \<Rightarrow>
   path list \<times> (path \<times> nat) list" where
  "expandFiles normalized level [] acc = acc"
| "expandFiles normalized level (file # rest) (allImpacted, levels) =
     (if file = normalized then expandFiles normalized level rest (allImpacted, levels)
      else expandFiles normalized level rest
             (set_add file allImpacted, AList.update file level levels))"

fun expandSCCs ::
  "path \<Rightarrow> CondensedNode list \<Rightarrow> (nat \<times> nat) list \<Rightarrow> path list \<times> (path \<times> nat) list \<Rightarrow>
   error + path list \<times> (path \<times> nat) list" where
  "expandSCCs normalized ns [] acc = Inr acc"
| "expandSCCs normalized ns ((sccIdx, level) # rest) acc =
     (if sccIdx < length ns
      then expandSCCs normalized ns rest
             (expandFiles normalized level (node_files (ns ! sccIdx)) acc)
      else Inl TypeError)"

definition analyzeImpactWithSCC ::
  "host \<Rightarrow> path \<Rightarrow> DependencyGraph \<Rightarrow> SCCResult \<Rightarrow> error + ImpactResult" where
  "analyzeImpactWithSCC h normalized graph s =
     (case map_of (nodeToComponent s) normalized of
        None \<Rightarrow> Inr (analyzeImpactBFS h normalized graph)
      | Some sccIndex \<Rightarrow>
          if \<not> sccIndex < length (nodes (condensed s)) then Inl TypeError
          else
            let startNode = nodes (condensed s) ! sccIndex;
                cluster = (if isCyclic startNode
                           then Some (map (toRelative h)
                                        (filter (\<lambda>f. f \<noteq> normalized) (node_files startNode)))
                           else None);
                visitedSCCs = sccLoop (dag_reverse (condensed s)) [(sccIndex, 0)] [(sccIndex, 0)]
            in (case expandSCCs normalized (nodes (condensed s)) visitedSCCs ([], []) of
                  Inl e \<Rightarrow> Inl e
                | Inr (allImpacted, levels) \<Rightarrow>
                    let rawDirect = get_or_empty (reverse graph) normalized;
                        directSet = fold set_add
                                      (if isCyclic startNode
                                       then filter (\<lambda>f. f \<noteq> normalized) (node_files startNode)
                                       else [])
                                      (fold set_add rawDirect []);
                        direct = filter (\<lambda>f. f \<in> set directSet) allImpacted;
                        transitive = filter (\<lambda>f. f \<notin> set directSet) allImpacted;
                        total = length allImpacted;
                        relLevels = fold (\<lambda>(file, level). AList.update (toRelative h file) level)
                                         levels []
                    in Inr \<lparr>filePath = normalized, relativePath = toRelative h normalized,
                            riskLevel = classifyRisk total,
                            directDependents = map (toRelative h) direct,
                            transitiveDependents = map (toRelative h) transitive,
                            totalImpacted = total,
                            cascadeLevels = Some relLevels,
                            circularCluster = cluster,
                            sccCount = Some (length (nodes (condensed s))),
                            cyclicSCCs = Some (length (filter isCyclic (nodes (condensed s)))),
                            fromCache = None\<rparr>))"

subsection \<open>The memoised entry point and its caller\<close>

text \<open>
  \<open>analyzeImpact\<close> without the optional coupling enrichment (\<open>options\<close> undefined).
  \<open>now\<close> is \<open>Date.now()\<close>. The memo cache is the process-wide singleton, passed in and
  returned. A thrown \<open>TypeError\<close> rejects the promise after the cache has counted its miss.
\<close>

definition analyzeImpact ::
  "host \<Rightarrow> nat \<Rightarrow> path \<Rightarrow> DependencyGraph \<Rightarrow> MemoCache \<Rightarrow> (error + ImpactResult) \<times> MemoCache" where
  "analyzeImpact h now normalized graph mc =
     (case memo_get normalized mc of
        (Some cached, mc1) \<Rightarrow>
          let direct = map (toRelative h) (get_or_empty (reverse graph) normalized);
              transitive = filter (\<lambda>rel. rel \<notin> set direct) (map (toRelative h) (impactSet cached))
          in (Inr \<lparr>filePath = normalized, relativePath = toRelative h normalized,
                   riskLevel = entry_riskLevel cached,
                   directDependents = direct,
                   transitiveDependents = transitive,
                   totalImpacted = directCount cached + transitiveCount cached,
                   cascadeLevels = entry_cascadeLevels cached,
                   circularCluster = None, sccCount = None, cyclicSCCs = None,
                   fromCache = Some True\<rparr>, mc1)
      | (None, mc1) \<Rightarrow>
          (case (case scc graph of
                   Some s \<Rightarrow> analyzeImpactWithSCC h normalized graph s
                 | None \<Rightarrow> Inr (analyzeImpactBFS h normalized graph)) of
             Inl e \<Rightarrow> (Inl e, mc1)
           | Inr result \<Rightarrow>
               (Inr result,
                memo_set normalized
                  \<lparr>impactSet = map (toAbsolute h)
                                 (directDependents result @ transitiveDependents result),
                   directCount = length (directDependents result),
                   transitiveCount = length (transitiveDependents result),
                   entry_riskLevel = riskLevel result,
                   entry_cascadeLevels = cascadeLevels result,
                   computedAt = now\<rparr> mc1)))"

text \<open>
  The handler of \<open>GET /api/impact/*\<close> after \<open>resolveFilePath\<close>: the 404 answer
  \<open>File not found in graph\<close> is the structured error, and the analyser is not called.
\<close>

definition impactRoute ::
  "host \<Rightarrow> nat \<Rightarrow> path \<Rightarrow> DependencyGraph \<Rightarrow> MemoCache \<Rightarrow> (error + ImpactResult) \<times> MemoCache" where
  "impactRoute h now resolved graph mc =
     (if resolved \<notin> set (files graph) then (Inl (FileNotInGraph resolved), mc)
      else analyzeImpact h now resolved graph mc)"

section \<open>File watcher\<close>

datatype ChangeType = Modified | Added | Deleted

text \<open>The change event, without its line diff and timestamp.\<close>

record FileChange =
  change_filePath :: path
  change_relativePath :: path
  change_type :: ChangeType
  oldContent :: "string option"
  newContent :: "string option"

text \<open>
  What \<open>fs.existsSync\<close> and \<open>fs.readFileSync\<close> answer when the debounce timer fires.
\<close>

datatype fs_probe = Missing | Unreadable | Content string

datatype emitted = ChangeEvent FileChange | GraphUpdatedEvent IncrementalUpdateResult

text \<open>
  \<open>EventEmitter.emit\<close> runs the listeners at once, inside \<open>handleFileEvent\<close>. An
  observation records the event together with the graph and the memo cache as they are
  at that moment, which is what a listener can read.
\<close>

record observation =
  event :: emitted
  seen_graph :: "DependencyGraph option"
  seen_memo :: MemoCache

record FileCache =
  contents :: "(path \<times> string) list"
  graph_ref :: "DependencyGraph option"

definition applyToGraph ::
  "host \<Rightarrow> ChangeType \<Rightarrow> DependencyGraph \<Rightarrow> path \<Rightarrow> DependencyGraph \<times> IncrementalUpdateResult" where
  "applyToGraph h ty graph absPath =
     (case ty of
        Modified \<Rightarrow> updateGraphForFile h graph absPath
      | Added \<Rightarrow> addFileToGraph h graph absPath
      | Deleted \<Rightarrow> removeFileFromGraph graph absPath)"

definition emitAndUpdate ::
  "host \<Rightarrow> FileChange \<Rightarrow> FileCache \<Rightarrow> MemoCache \<Rightarrow> (FileCache \<times> MemoCache) \<times> observation list" where
  "emitAndUpdate h change fc mc =
     (let first = \<lparr>event = ChangeEvent change, seen_graph = graph_ref fc, seen_memo = mc\<rparr> in
      case graph_ref fc of
        None \<Rightarrow> ((fc, mc), [first])
      | Some graph \<Rightarrow>
          (case applyToGraph h (change_type change) graph (change_filePath change) of
             (graph', result) \<Rightarrow>
               let mc' = (if edgesChanged result \<and> affectedFiles result \<noteq> []
                          then snd (invalidate (affectedFiles result) mc) else mc);
                   fc' = fc\<lparr>graph_ref := Some graph'\<rparr>
               in ((fc', mc'),
                   [first,
                    \<lparr>event = GraphUpdatedEvent result, seen_graph = Some graph',
                     seen_memo = mc'\<rparr>])))"

definition handleFileEvent ::
  "host \<Rightarrow> fs_probe \<Rightarrow> path \<Rightarrow> path \<Rightarrow> FileCache \<Rightarrow> MemoCache \<Rightarrow>
   (FileCache \<times> MemoCache) \<times> observation list" where
  "handleFileEvent h probe absPath relPath fc mc =
     (let old = (case map_of (contents fc) absPath of
                   None \<Rightarrow> None
                 | Some c \<Rightarrow> if c = [] then None else Some c)
      in case probe of
           Unreadable \<Rightarrow> ((fc, mc), [])
         | Content new \<Rightarrow>
             if old = None then
               emitAndUpdate h \<lparr>change_filePath = absPath, change_relativePath = relPath,
                                change_type = Added, oldContent = old, newContent = Some new\<rparr>
                 (fc\<lparr>contents := AList.update absPath new (contents fc)\<rparr>) mc
             else if old = Some new then ((fc, mc), [])
             else
               emitAndUpdate h \<lparr>change_filePath = absPath, change_relativePath = relPath,
                                change_type = Modified, oldContent = old, newContent = Some new\<rparr>
                 (fc\<lparr>contents := AList.update absPath new (contents fc)\<rparr>) mc
         | Missing \<Rightarrow>
             emitAndUpdate h \<lparr>change_filePath = absPath, change_relativePath = relPath,
                              change_type = Deleted, oldContent = old, newContent = None\<rparr>
               (fc\<lparr>contents := AList.delete absPath (contents fc)\<rparr>) mc)"

section \<open>Full graph build\<close>

text \<open>
  One round of the two nested loops of \<open>buildGraph\<close>, over a plugin and one of its source
  directories: \<open>sourceFiles\<close> is \<open>plugin.discoverFiles(dir)\<close> and \<open>importsOf\<close> is
  \<open>plugin.parseImports(f, projectRoot, dir)\<close>.
\<close>

record sourceBatch =
  sourceFiles :: "path list"
  importsOf :: "path \<Rightarrow> path list"

definition limitHit :: "nat option \<Rightarrow> path list \<Rightarrow> bool" where
  "limitHit maxFiles fs = (case maxFiles of None \<Rightarrow> False | Some m \<Rightarrow> m \<noteq> 0 \<and> m \<le> length fs)"

fun addFiles ::
  "nat option \<Rightarrow> path list \<Rightarrow> (path \<times> path list) list \<times> path list \<Rightarrow>
   (path \<times> path list) list \<times> path list" where
  "addFiles maxFiles [] acc = acc"
| "addFiles maxFiles (f # rest) (fw, fs) =
     (if limitHit maxFiles fs then (fw, fs)
      else addFiles maxFiles rest
             (if has_key fw f then fw else AList.update f [] fw, set_add f fs))"

definition pushBuildReverse :: "path \<Rightarrow> path \<Rightarrow> (path \<times> path list) list \<Rightarrow> (path \<times> path list) list" where
  "pushBuildReverse f imp rv = AList.update imp (get_or_empty rv imp @ [f]) rv"

fun parseFiles ::
  "(path \<Rightarrow> path list) \<Rightarrow> path list \<Rightarrow> path list \<Rightarrow>
   (path \<times> path list) list \<times> (path \<times> path list) list \<Rightarrow>
   (path \<times> path list) list \<times> (path \<times> path list) list" where
  "parseFiles imports fs [] acc = acc"
| "parseFiles imports fs (f # rest) (fw, rv) =
     (if f \<notin> set fs then parseFiles imports fs rest (fw, rv)
      else
        let validImports = filter (\<lambda>imp. imp \<in> set fs) (imports f)
        in parseFiles imports fs rest
             (AList.update f validImports fw, fold (pushBuildReverse f) validImports rv))"

definition buildBatch :: "nat option \<Rightarrow> sourceBatch \<Rightarrow> DependencyGraph \<Rightarrow> DependencyGraph" where
  "buildBatch maxFiles b graph =
     (case addFiles maxFiles (sourceFiles b) (forward graph, files graph) of
        (fw, fs) \<Rightarrow>
          (case parseFiles (importsOf b) fs (sourceFiles b) (fw, reverse graph) of
             (fw', rv') \<Rightarrow> graph\<lparr>forward := fw', reverse := rv', files := fs\<rparr>))"

definition buildGraph :: "sourceBatch list \<Rightarrow> nat option \<Rightarrow> MemoCache \<Rightarrow> DependencyGraph \<times> MemoCache" where
  "buildGraph batches maxFiles mc =
     (let graph = fold (buildBatch maxFiles) batches
                    \<lparr>forward = [], reverse = [], files = [], scc = None\<rparr>
      in (graph\<lparr>scc := computeSCC graph\<rparr>, invalidateAll mc))"

section \<open>Change-coupling miner\<close>





















section \<open>Properties\<close>

subsection \<open>Mutual adjacency\<close>

definition mutualAdjacency :: "DependencyGraph \<Rightarrow> bool" where
  "mutualAdjacency g \<longleftrightarrow>
     (\<forall>a b. b \<in> set (get_or_empty (forward g) a) \<longleftrightarrow> a \<in> set (get_or_empty (reverse g) b))"

definition importsTwice :: host where
  "importsTwice = \<lparr>parseImports = (\<lambda>p. if p = ''s'' then Some [''f'', ''f''] else Some []),
                    toRelative = id, toAbsolute = id\<rparr>"

definition twoFiles :: DependencyGraph where
  "twoFiles = \<lparr>forward = [(''s'', []), (''f'', [])], reverse = [], files = [''s'', ''f''],
                scc = None\<rparr>"

lemma twoFiles_modified:
  "forward (fst (updateGraphForFile importsTwice twoFiles ''s'')) = [(''s'', [''f'', ''f'']), (''f'', [])]"
  "reverse (fst (updateGraphForFile importsTwice twoFiles ''s'')) = [(''f'', [''s''])]"
  "files (fst (updateGraphForFile importsTwice twoFiles ''s'')) = [''s'', ''f'']"
  by code_simp+

lemma twoFiles_deleted:
  "forward (fst (removeFileFromGraph (fst (updateGraphForFile importsTwice twoFiles ''s'')) ''f'')) = [(''s'', [''f''])]"
  "reverse (fst (removeFileFromGraph (fst (updateGraphForFile importsTwice twoFiles ''s'')) ''f'')) = []"
  "files (fst (removeFileFromGraph (fst (updateGraphForFile importsTwice twoFiles ''s'')) ''f'')) = [''s'']"
  by code_simp+

text \<open>
  C1. Mutual adjacency under the three incremental operations. A file \<open>s\<close> whose
  plugin reports the same import \<open>f\<close> twice keeps \<open>Forward[s] = [f, f]\<close> after a
  Modified event, with \<open>Reverse[f] = [s]\<close>; the invariant still holds. Deleting \<open>f\<close>
  then splices one occurrence out of \<open>Forward[s]\<close> and drops \<open>Reverse[f]\<close>: the edge
  \<open>s \<rightarrow> f\<close> stays in \<open>Forward\<close> with no counterpart in \<open>Reverse\<close>, and the invariant
  is broken by \<open>removeFileFromGraph\<close>.
\<close>

theorem removeFile_leaves_forward_edge:
  "mutualAdjacency twoFiles \<and>
   mutualAdjacency (fst (updateGraphForFile importsTwice twoFiles ''s'')) \<and>
   \<not> mutualAdjacency (fst (removeFileFromGraph (fst (updateGraphForFile importsTwice twoFiles ''s'')) ''f''))"
proof (intro conjI)
  show "mutualAdjacency twoFiles"
    by (simp add: mutualAdjacency_def twoFiles_def get_or_empty_def)
  show "mutualAdjacency (fst (updateGraphForFile importsTwice twoFiles ''s''))"
    unfolding mutualAdjacency_def twoFiles_modified
    by (auto simp: get_or_empty_def split: if_splits)
  show "\<not> mutualAdjacency (fst (removeFileFromGraph (fst (updateGraphForFile importsTwice twoFiles ''s'')) ''f''))"
  proof
    assume "mutualAdjacency (fst (removeFileFromGraph (fst (updateGraphForFile importsTwice twoFiles ''s'')) ''f''))"
    then have "''f'' \<in> set (get_or_empty [(''s'', [''f''])] ''s'') \<longleftrightarrow> ''s'' \<in> set (get_or_empty ([]::(path \<times> path list) list) ''f'')"
      unfolding mutualAdjacency_def twoFiles_deleted by blast
    then show False by (simp add: get_or_empty_def)
  qed
qed

subsection \<open>Forward lists\<close>

definition importsTwiceBatch :: sourceBatch where
  "importsTwiceBatch = \<lparr>sourceFiles = [''s'', ''f''],
                         importsOf = (\<lambda>p. if p = ''s'' then [''f'', ''f''] else [])\<rparr>"

text \<open>
  C8, as stated, fails: neither the full build nor the Modified path removes repeated
  entries. With a plugin that reports \<open>f\<close> twice for \<open>s\<close>, \<open>Forward[s]\<close> is \<open>[f, f]\<close>
  after \<open>buildGraph\<close> and after \<open>updateGraphForFile\<close>.
\<close>

theorem forward_keeps_repeated_imports:
  "\<not> distinct (get_or_empty (forward (fst (buildGraph [importsTwiceBatch] None (createMemoCache 500)))) ''s'') \<and>
   \<not> distinct (get_or_empty (forward (fst (updateGraphForFile importsTwice twoFiles ''s''))) ''s'')"
  by code_simp

lemma get_or_empty_update: "get_or_empty (AList.update k v m) k' = (if k' = k then v else get_or_empty m k')"
  by (simp add: get_or_empty_def update_conv')

lemma forward_recompute [simp]: "forward (recomputeGraphMetrics g) = forward g"
  "reverse (recomputeGraphMetrics g) = reverse g" "files (recomputeGraphMetrics g) = files g"
  by (simp_all add: recomputeGraphMetrics_def)

lemma updateKnown_forward:
  "parseImports h f = Some raw \<Longrightarrow>
     forward (fst (updateKnown h g f)) = AList.update f (filter (\<lambda>i. i \<in> set (files g)) raw) (forward g)"
  by (simp add: updateKnown_def Let_def)

lemma addFiles_unlimited:
  "addFiles None xs (fw, fs) = (fw', fs') \<Longrightarrow> set fs' = set fs \<union> set xs"
  by (induction xs arbitrary: fw fs) (auto simp: limitHit_def set_add_def split: if_splits)

lemma parseFiles_forward:
  "map_of (fst (parseFiles imp fs xs (fw, rv))) f =
     (if f \<in> set xs \<and> f \<in> set fs then Some (filter (\<lambda>i. i \<in> set fs) (imp f)) else map_of fw f)"
  by (induction xs arbitrary: fw rv) (auto simp: Let_def update_conv')

lemma buildGraph_single_forward:
  assumes "f \<in> set (sourceFiles b)"
  shows "get_or_empty (forward (fst (buildGraph [b] None mc))) f =
           filter (\<lambda>i. i \<in> set (sourceFiles b)) (importsOf b f)"
proof -
  obtain fw fs where a: "addFiles None (sourceFiles b) ([], []) = (fw, fs)"
    by (cases "addFiles None (sourceFiles b) ([], [])") auto
  then have fs: "set fs = set (sourceFiles b)"
    using addFiles_unlimited[OF a] by simp
  obtain fw' rv' where p: "parseFiles (importsOf b) fs (sourceFiles b) (fw, []) = (fw', rv')"
    by (cases "parseFiles (importsOf b) fs (sourceFiles b) (fw, [])") auto
  have "map_of fw' f = Some (filter (\<lambda>i. i \<in> set fs) (importsOf b f))"
    using parseFiles_forward[of "importsOf b" fs "sourceFiles b" fw "[]" f] p assms fs by simp
  then show ?thesis
    using a p fs by (simp add: buildGraph_def buildBatch_def get_or_empty_def)
qed

text \<open>
  C8, amended. After a Modified event on a file of the graph, and after a full build of
  one source directory without a file limit, \<open>Forward[f]\<close> is the list that
  \<open>parseImports\<close> returned, restricted to \<open>Files\<close>, in the same order and with
  repetitions kept. It is free of duplicates exactly when that restricted list is.
\<close>

theorem forward_is_filtered_import_list:
  "(f \<in> set (files g) \<longrightarrow> parseImports h f = Some raw \<longrightarrow>
      get_or_empty (forward (fst (updateGraphForFile h g f))) f
        = filter (\<lambda>i. i \<in> set (files g)) raw) \<and>
   (f \<in> set (sourceFiles b) \<longrightarrow>
      get_or_empty (forward (fst (buildGraph [b] None mc))) f
        = filter (\<lambda>i. i \<in> set (sourceFiles b)) (importsOf b f))"
  by (simp add: updateGraphForFile_def updateKnown_forward get_or_empty_update
        buildGraph_single_forward)

theorem forward_is_filtered_import_list_witness:
  "''s'' \<in> set (files twoFiles) \<and> parseImports importsTwice ''s'' = Some [''f'', ''f''] \<and>
   get_or_empty (forward (fst (updateGraphForFile importsTwice twoFiles ''s''))) ''s'' = [''f'', ''f''] \<and>
   ''s'' \<in> set (sourceFiles importsTwiceBatch) \<and>
   get_or_empty (forward (fst (buildGraph [importsTwiceBatch] None (createMemoCache 500)))) ''s''
     = [''f'', ''f'']"
  using forward_is_filtered_import_list[of "''s''" twoFiles importsTwice "[''f'', ''f'']"
          importsTwiceBatch "createMemoCache 500"]
  by (simp add: twoFiles_def importsTwice_def importsTwiceBatch_def)

subsection \<open>Watcher: order of emission and update\<close>

definition plainHost :: host where
  "plainHost = \<lparr>parseImports = (\<lambda>p. Some []), toRelative = id, toAbsolute = id\<rparr>"




lemma emitAndUpdate_cases:
  assumes "emitAndUpdate h change fc mc = ((fc', mc'), obs)"
  shows "(graph_ref fc = None \<and> fc' = fc \<and> mc' = mc \<and>
          obs = [\<lparr>event = ChangeEvent change, seen_graph = None, seen_memo = mc\<rparr>]) \<or>
         (\<exists>g g' res.
            graph_ref fc = Some g \<and>
            applyToGraph h (change_type change) g (change_filePath change) = (g', res) \<and>
            graph_ref fc' = Some g' \<and>
            mc' = (if edgesChanged res \<and> affectedFiles res \<noteq> []
                   then snd (invalidate (affectedFiles res) mc) else mc) \<and>
            obs = [\<lparr>event = ChangeEvent change, seen_graph = Some g, seen_memo = mc\<rparr>,
                   \<lparr>event = GraphUpdatedEvent res, seen_graph = Some g', seen_memo = mc'\<rparr>])"
proof (cases "graph_ref fc")
  case None
  with assms show ?thesis by (auto simp: emitAndUpdate_def Let_def)
next
  case (Some g)
  obtain g' res where a: "applyToGraph h (change_type change) g (change_filePath change) = (g', res)"
    by (cases "applyToGraph h (change_type change) g (change_filePath change)") auto
  have "graph_ref fc' = Some g'"
    "mc' = (if edgesChanged res \<and> affectedFiles res \<noteq> []
            then snd (invalidate (affectedFiles res) mc) else mc)"
    "obs = [\<lparr>event = ChangeEvent change, seen_graph = Some g, seen_memo = mc\<rparr>,
            \<lparr>event = GraphUpdatedEvent res, seen_graph = Some g', seen_memo = mc'\<rparr>]"
    using assms Some a by (auto simp: emitAndUpdate_def Let_def)
  with Some a show ?thesis by blast
qed

lemma handleFileEvent_cases:
  assumes "handleFileEvent h probe p r fc mc = ((fc', mc'), obs)"
  shows "(obs = [] \<and> fc' = fc \<and> mc' = mc) \<or>
         (\<exists>c fc1. change_filePath c = p \<and>
                  change_type c = (case probe of Missing \<Rightarrow> Deleted
                                   | _ \<Rightarrow> if map_of (contents fc) p \<in> {None, Some []}
                                          then Added else Modified) \<and>
                  graph_ref fc1 = graph_ref fc \<and>
                  emitAndUpdate h c fc1 mc = ((fc', mc'), obs))"
  using assms
  by (cases probe)
     (auto simp: handleFileEvent_def Let_def split: option.splits if_splits)

lemma handleFileEvent_shape:
  assumes "handleFileEvent h probe p r fc mc = ((fc', mc'), obs)"
  shows "(obs = [] \<and> fc' = fc \<and> mc' = mc) \<or>
         (\<exists>c. graph_ref fc = None \<and> graph_ref fc' = None \<and> mc' = mc \<and>
              obs = [\<lparr>event = ChangeEvent c, seen_graph = None, seen_memo = mc\<rparr>]) \<or>
         (\<exists>c g g' res.
            graph_ref fc = Some g \<and>
            applyToGraph h (change_type c) g p = (g', res) \<and>
            graph_ref fc' = Some g' \<and>
            mc' = (if edgesChanged res \<and> affectedFiles res \<noteq> []
                   then snd (invalidate (affectedFiles res) mc) else mc) \<and>
            obs = [\<lparr>event = ChangeEvent c, seen_graph = Some g, seen_memo = mc\<rparr>,
                   \<lparr>event = GraphUpdatedEvent res, seen_graph = Some g', seen_memo = mc'\<rparr>])"
proof -
  from handleFileEvent_cases[OF assms]
  consider "obs = [] \<and> fc' = fc \<and> mc' = mc"
    | c fc1 where "change_filePath c = p" "graph_ref fc1 = graph_ref fc"
        "emitAndUpdate h c fc1 mc = ((fc', mc'), obs)"
    by blast
  then show ?thesis
  proof cases
    case 1
    then show ?thesis by simp
  next
    case 2
    from emitAndUpdate_cases[OF 2(3)] 2(1,2) show ?thesis
      by (elim disjE exE conjE) (simp, metis)
  qed
qed











subsection \<open>Watcher: when the memo cache is invalidated\<close>

lemma edgesChanged_iff:
  "edgesChanged (snd (updateKnown h g f)) \<longleftrightarrow>
     addedEdges (snd (updateKnown h g f)) \<noteq> [] \<or> removedEdges (snd (updateKnown h g f)) \<noteq> []"
  "edgesChanged (snd (addUnknown h g f)) \<longleftrightarrow>
     addedEdges (snd (addUnknown h g f)) \<noteq> [] \<or> removedEdges (snd (addUnknown h g f)) \<noteq> []"
  "edgesChanged (snd (removeFileFromGraph g f)) \<longleftrightarrow>
     addedEdges (snd (removeFileFromGraph g f)) \<noteq> [] \<or> removedEdges (snd (removeFileFromGraph g f)) \<noteq> []"
  by (auto simp: updateKnown_def addUnknown_def removeFileFromGraph_def noChange_def Let_def
           split: option.splits)

lemma applyToGraph_edgesChanged:
  assumes "applyToGraph h ty g f = (g', res)"
  shows "edgesChanged res \<longleftrightarrow> addedEdges res \<noteq> [] \<or> removedEdges res \<noteq> []"
proof -
  have "res = snd (updateKnown h g f) \<or> res = snd (addUnknown h g f) \<or>
        res = snd (removeFileFromGraph g f)"
    using assms
    by (cases ty)
       (auto simp: applyToGraph_def updateGraphForFile_def addFileToGraph_def split: if_splits)
  then show ?thesis
    using edgesChanged_iff(1)[of h g f] edgesChanged_iff(2)[of h g f] edgesChanged_iff(3)[of g f]
    by (elim disjE) simp_all
qed

lemma removeFile_isolated:
  assumes "f \<in> set (files g)" "get_or_empty (forward g) f = []" "get_or_empty (reverse g) f = []"
  shows "removeFileFromGraph g f =
           (g\<lparr>forward := AList.delete f (forward g), reverse := AList.delete f (reverse g),
              files := removeAll f (files g)\<rparr>,
            \<lparr>updatedFile = f, addedEdges = [], removedEdges = [], edgesChanged = False,
             affectedFiles = computeAffectedFiles f g\<rparr>)"
  using assms by (simp add: removeFileFromGraph_def Let_def)

lemma addFile_no_imports:
  assumes "f \<notin> set (files g)"
    "\<forall>raw. parseImports h f = Some raw \<longrightarrow> (\<forall>i \<in> set raw. i \<notin> set (files g) \<and> i \<noteq> f)"
  shows "\<not> edgesChanged (snd (addFileToGraph h g f)) \<and>
         files (fst (addFileToGraph h g f)) = files g @ [f]"
proof (cases "parseImports h f")
  case None
  with assms show ?thesis
    by (simp add: addFileToGraph_def addUnknown_def noChange_def set_add_def)
next
  case (Some raw)
  with assms have "filter (\<lambda>imp. imp \<in> set (set_add f (files g))) raw = []"
    by (auto simp: set_add_def filter_empty_conv)
  with assms Some show ?thesis
    by (simp add: addFileToGraph_def addUnknown_def Let_def set_add_def)
qed

text \<open>
  C10. The watcher invalidates the memo cache only when the update reports an added or a
  removed edge. Deleting a file of the graph that has no forward and no reverse edges
  takes it out of \<open>Files\<close> and leaves the memo cache as it was, so every entry, also the
  one keyed by the deleted file, is still returned by \<open>get\<close>. Adding a file none of whose
  imports resolves to a file of the graph puts it into \<open>Files\<close> and leaves the memo cache
  as it was.
\<close>

theorem memo_untouched_without_edge_change:
  assumes "handleFileEvent h probe f r fc mc = ((fc', mc'), obs)"
  shows "(mc' \<noteq> mc \<longrightarrow>
            (\<exists>ob \<in> set obs. \<exists>res. event ob = GraphUpdatedEvent res \<and> edgesChanged res \<and>
                                  (addedEdges res \<noteq> [] \<or> removedEdges res \<noteq> []))) \<and>
         (\<forall>g. probe = Missing \<and> graph_ref fc = Some g \<and> f \<in> set (files g) \<and>
               get_or_empty (forward g) f = [] \<and> get_or_empty (reverse g) f = [] \<longrightarrow>
               mc' = mc \<and> (\<forall>k. fst (memo_get k mc') = map_of (cache mc) k) \<and>
               (\<exists>g'. graph_ref fc' = Some g' \<and> files g' = removeAll f (files g))) \<and>
         (\<forall>g new. probe = Content new \<and> map_of (contents fc) f = None \<and>
               graph_ref fc = Some g \<and> f \<notin> set (files g) \<and>
               (\<forall>raw. parseImports h f = Some raw \<longrightarrow> (\<forall>i \<in> set raw. i \<notin> set (files g) \<and> i \<noteq> f)) \<longrightarrow>
               mc' = mc \<and> (\<exists>g'. graph_ref fc' = Some g' \<and> files g' = files g @ [f]))"
proof -
  have one: "\<exists>ob \<in> set obs. \<exists>res. event ob = GraphUpdatedEvent res \<and> edgesChanged res \<and>
                                  (addedEdges res \<noteq> [] \<or> removedEdges res \<noteq> [])"
    if neq: "mc' \<noteq> mc"
  proof -
    from handleFileEvent_shape[OF assms] neq
    obtain c g g' res where *:
      "applyToGraph h (change_type c) g f = (g', res)"
      "mc' = (if edgesChanged res \<and> affectedFiles res \<noteq> []
              then snd (invalidate (affectedFiles res) mc) else mc)"
      "obs = [\<lparr>event = ChangeEvent c, seen_graph = Some g, seen_memo = mc\<rparr>,
              \<lparr>event = GraphUpdatedEvent res, seen_graph = Some g', seen_memo = mc'\<rparr>]"
      by auto
    from *(2) neq have "edgesChanged res" by (auto split: if_splits)
    with applyToGraph_edgesChanged[OF *(1)] *(3) show ?thesis by auto
  qed
  have two: "mc' = mc \<and> (\<forall>k. fst (memo_get k mc') = map_of (cache mc) k) \<and>
               (\<exists>g'. graph_ref fc' = Some g' \<and> files g' = removeAll f (files g))"
    if a: "probe = Missing \<and> graph_ref fc = Some g \<and> f \<in> set (files g) \<and>
               get_or_empty (forward g) f = [] \<and> get_or_empty (reverse g) f = []" for g
  proof -
    from a have rm: "removeFileFromGraph g f =
           (g\<lparr>forward := AList.delete f (forward g), reverse := AList.delete f (reverse g),
              files := removeAll f (files g)\<rparr>,
            \<lparr>updatedFile = f, addedEdges = [], removedEdges = [], edgesChanged = False,
             affectedFiles = computeAffectedFiles f g\<rparr>)"
      by (simp add: removeFile_isolated)
    from assms a rm
    have "mc' = mc \<and> (\<exists>g'. graph_ref fc' = Some g' \<and> files g' = removeAll f (files g))"
      by (auto simp: handleFileEvent_def emitAndUpdate_def applyToGraph_def Let_def)
    then show ?thesis by (auto simp: memo_get_def split: option.splits)
  qed
  have three: "mc' = mc \<and> (\<exists>g'. graph_ref fc' = Some g' \<and> files g' = files g @ [f])"
    if a: "probe = Content new \<and> map_of (contents fc) f = None \<and>
               graph_ref fc = Some g \<and> f \<notin> set (files g) \<and>
               (\<forall>raw. parseImports h f = Some raw \<longrightarrow> (\<forall>i \<in> set raw. i \<notin> set (files g) \<and> i \<noteq> f))"
    for g new
  proof -
    from a have ad: "\<not> edgesChanged (snd (addFileToGraph h g f))"
      "files (fst (addFileToGraph h g f)) = files g @ [f]"
      using addFile_no_imports[of f g h] by auto
    obtain g' res where ar: "addFileToGraph h g f = (g', res)"
      by (cases "addFileToGraph h g f") auto
    with ad have "\<not> edgesChanged res" "files g' = files g @ [f]" by auto
    with assms a ar show ?thesis
      by (auto simp: handleFileEvent_def emitAndUpdate_def applyToGraph_def Let_def)
  qed
  from one two three show ?thesis by blast
qed

definition lonelyGraph :: DependencyGraph where
  "lonelyGraph = \<lparr>forward = [(''a'', []), (''i'', [])], reverse = [], files = [''a'', ''i''],
                   scc = None\<rparr>"

definition lonelyMemo :: MemoCache where
  "lonelyMemo = snd (analyzeImpact plainHost 0 ''i'' lonelyGraph (createMemoCache 500))"

theorem memo_untouched_without_edge_change_witness:
  "snd (fst (handleFileEvent plainHost Missing ''i'' ''i''
               \<lparr>contents = [(''i'', ''x'')], graph_ref = Some lonelyGraph\<rparr> lonelyMemo)) = lonelyMemo \<and>
   map_of (cache lonelyMemo) ''i'' \<noteq> None \<and>
   fst (memo_get ''i'' (snd (fst (handleFileEvent plainHost Missing ''i'' ''i''
               \<lparr>contents = [(''i'', ''x'')], graph_ref = Some lonelyGraph\<rparr> lonelyMemo))))
     = map_of (cache lonelyMemo) ''i'' \<and>
   (\<exists>g'. graph_ref (fst (fst (handleFileEvent plainHost Missing ''i'' ''i''
               \<lparr>contents = [(''i'', ''x'')], graph_ref = Some lonelyGraph\<rparr> lonelyMemo))) = Some g' \<and>
         files g' = [''a''])"
proof -
  let ?fc = "\<lparr>contents = [(''i'', ''x'')], graph_ref = Some lonelyGraph\<rparr>"
  let ?R = "handleFileEvent plainHost Missing ''i'' ''i'' ?fc lonelyMemo"
  have eq: "?R = ((fst (fst ?R), snd (fst ?R)), snd ?R)" by simp
  have pre: "Missing = Missing \<and> graph_ref ?fc = Some lonelyGraph \<and> ''i'' \<in> set (files lonelyGraph) \<and>
             get_or_empty (forward lonelyGraph) ''i'' = [] \<and> get_or_empty (reverse lonelyGraph) ''i'' = []"
    by (simp add: lonelyGraph_def get_or_empty_def)
  have res: "map_of (cache lonelyMemo) ''i'' \<noteq> None" by code_simp
  from memo_untouched_without_edge_change[OF eq] pre
  have "snd (fst ?R) = lonelyMemo \<and>
        (\<forall>k. fst (memo_get k (snd (fst ?R))) = map_of (cache lonelyMemo) k) \<and>
        (\<exists>g'. graph_ref (fst (fst ?R)) = Some g' \<and> files g' = removeAll ''i'' (files lonelyGraph))"
    by blast
  moreover have "removeAll ''i'' (files lonelyGraph) = [''a'']" by (simp add: lonelyGraph_def)
  ultimately show ?thesis using res by auto
qed

subsection \<open>Unknown files\<close>

definition cycleBatch :: sourceBatch where
  "cycleBatch = \<lparr>sourceFiles = [''x'', ''y'', ''z''],
                  importsOf = (\<lambda>f. if f = ''x'' then [''y''] else if f = ''y'' then [''z'']
                                    else if f = ''z'' then [''x''] else [])\<rparr>"

definition cycleGraph :: DependencyGraph where
  "cycleGraph = fst (buildGraph [cycleBatch] None (createMemoCache 500))"

lemma cycleGraph_edges:
  "files cycleGraph = [''x'', ''y'', ''z'']"
  "forward cycleGraph = [(''x'', [''y'']), (''y'', [''z'']), (''z'', [''x''])]"
  "reverse cycleGraph = [(''y'', [''x'']), (''z'', [''y'']), (''x'', [''z''])]"
  by code_simp+

text \<open>
  C4, as stated, fails for the analyser itself: \<open>analyzeImpact\<close> has no membership test.
  For a file that is not in \<open>Files\<close> it finds no SCC index, falls back to the plain BFS
  and returns an ordinary result with no dependents and risk \<open>NONE\<close>, which it also
  stores in the memo cache.
\<close>

theorem analyzeImpact_unknown_file_is_ordinary_result:
  "''q'' \<notin> set (files cycleGraph) \<and>
   fst (analyzeImpact plainHost 0 ''q'' cycleGraph (createMemoCache 500)) =
     Inr \<lparr>filePath = ''q'', relativePath = ''q'', riskLevel = NONE, directDependents = [],
          transitiveDependents = [], totalImpacted = 0, cascadeLevels = None,
          circularCluster = None, sccCount = None, cyclicSCCs = None, fromCache = None\<rparr> \<and>
   map_of (cache (snd (analyzeImpact plainHost 0 ''q'' cycleGraph (createMemoCache 500)))) ''q'' \<noteq> None"
  by code_simp

subsection \<open>Scenario S2: a three-file cycle\<close>

text \<open>
  C5. In the graph built from \<open>x \<rightarrow> y\<close>, \<open>y \<rightarrow> z\<close>, \<open>z \<rightarrow> x\<close> the three files form one
  cyclic SCC. \<open>analyzeImpact(x)\<close> on the empty memo cache returns normally;
  \<open>directDependents\<close> holds \<open>y\<close> and \<open>z\<close>, \<open>totalImpacted\<close> is 2, \<open>circularCluster\<close> is
  the other two files, and \<open>cascadeLevels\<close> maps \<open>y\<close> and \<open>z\<close> to 0.
\<close>

theorem cycle_impact_of_x:
  "map_option components (scc cycleGraph) = Some [[''z'', ''y'', ''x'']] \<and>
   (case fst (analyzeImpact plainHost now ''x'' cycleGraph (createMemoCache 500)) of
      Inl e \<Rightarrow> False
    | Inr r \<Rightarrow>
        set (directDependents r) = {''y'', ''z''} \<and>
        totalImpacted r = 2 \<and>
        map_option set (circularCluster r) = Some {''y'', ''z''} \<and>
        map_option map_of (cascadeLevels r) = Some [''y'' \<mapsto> 0, ''z'' \<mapsto> 0] \<and>
        riskLevel r = LOW \<and> transitiveDependents r = [] \<and>
        sccCount r = Some 1 \<and> cyclicSCCs r = Some 1)"
proof -
  have s: "map_option components (scc cycleGraph) = Some [[''z'', ''y'', ''x'']]"
    by code_simp
  have r: "fst (analyzeImpact plainHost 0 ''x'' cycleGraph (createMemoCache 500)) =
     Inr \<lparr>filePath = ''x'', relativePath = ''x'', riskLevel = LOW,
          directDependents = [''z'', ''y''], transitiveDependents = [], totalImpacted = 2,
          cascadeLevels = Some [(''z'', 0), (''y'', 0)],
          circularCluster = Some [''z'', ''y''], sccCount = Some 1, cyclicSCCs = Some 1,
          fromCache = None\<rparr>"
    by code_simp
  have n: "fst (analyzeImpact plainHost now ''x'' cycleGraph (createMemoCache 500)) =
           fst (analyzeImpact plainHost 0 ''x'' cycleGraph (createMemoCache 500))"
    by (simp add: analyzeImpact_def memo_get_def createMemoCache_def split: sum.splits option.splits)
  show ?thesis unfolding n r using s by (auto simp: fun_eq_iff)
qed

subsection \<open>Memo cache: the reverse-index invariant\<close>

text \<open>
  The states of the memo cache that the operations can reach: the keys of the cache are
  unique, the recency list holds exactly those keys, each once, and the reverse index
  lists a key under a file exactly when the file is in the entry's impact set or is the
  key itself.
\<close>

definition memo_inv :: "MemoCache \<Rightarrow> bool" where
  "memo_inv mc \<longleftrightarrow>
     distinct (map fst (cache mc)) \<and>
     distinct (accessOrder mc) \<and>
     set (accessOrder mc) = fst ` set (cache mc) \<and>
     (\<forall>f k. k \<in> set (get_or_empty (reverseIndex mc) f) \<longleftrightarrow>
            (\<exists>e. map_of (cache mc) k = Some e \<and> (f \<in> set (impactSet e) \<or> f = k)))"

lemma get_or_empty_delete:
  "get_or_empty (AList.delete k m) k' = (if k' = k then [] else get_or_empty m k')"
  by (simp add: get_or_empty_def delete_conv')

lemma dropIndex_get:
  "get_or_empty (dropIndex k f ri) f' =
     (if f' = f then removeAll k (get_or_empty ri f) else get_or_empty ri f')"
  by (auto simp: dropIndex_def Let_def get_or_empty_update get_or_empty_delete
           split: option.splits)
     (auto simp: get_or_empty_def)

lemma fold_dropIndex_get:
  "get_or_empty (fold (dropIndex k) fs ri) f' =
     (if f' \<in> set fs then removeAll k (get_or_empty ri f') else get_or_empty ri f')"
  by (induction fs arbitrary: ri) (auto simp: dropIndex_get)

lemma removeEntry_index:
  "map_of (cache mc) k = Some e \<Longrightarrow>
     get_or_empty (reverseIndex (removeEntry k mc)) f =
       (if f \<in> set (impactSet e) \<or> f = k then removeAll k (get_or_empty (reverseIndex mc) f)
        else get_or_empty (reverseIndex mc) f)"
  by (auto simp: removeEntry_def dropIndex_get fold_dropIndex_get)

lemma removeAll_filter: "removeAll k xs = filter (\<lambda>x. x \<noteq> k) xs"
  by (induction xs) auto

lemma remove1_filter_distinct: "distinct xs \<Longrightarrow> remove1 k xs = filter (\<lambda>x. x \<noteq> k) xs"
  by (simp add: distinct_remove1_removeAll removeAll_filter)

lemma delete_filter: "AList.delete k m = filter (\<lambda>p. fst p \<noteq> k) m"
  by (induction m) auto

lemma removeEntry_step:
  assumes "memo_inv mc"
  shows "memo_inv (removeEntry k mc) \<and>
         cache (removeEntry k mc) = filter (\<lambda>p. fst p \<noteq> k) (cache mc) \<and>
         accessOrder (removeEntry k mc) = filter (\<lambda>x. x \<noteq> k) (accessOrder mc) \<and>
         (\<forall>f. get_or_empty (reverseIndex (removeEntry k mc)) f
                = filter (\<lambda>x. x \<noteq> k) (get_or_empty (reverseIndex mc) f)) \<and>
         hits (removeEntry k mc) = hits mc \<and> misses (removeEntry k mc) = misses mc \<and>
         maxSize (removeEntry k mc) = maxSize mc"
proof (cases "map_of (cache mc) k")
  case None
  then have nk: "k \<notin> fst ` set (cache mc)" by (simp add: map_of_eq_None_iff)
  have same: "removeEntry k mc = mc" using None by (simp add: removeEntry_def)
  have "filter (\<lambda>p. fst p \<noteq> k) (cache mc) = cache mc"
    using nk by (auto simp: filter_id_conv)
  moreover have "filter (\<lambda>x. x \<noteq> k) (accessOrder mc) = accessOrder mc"
    using nk assms by (auto simp: filter_id_conv memo_inv_def)
  moreover have "filter (\<lambda>x. x \<noteq> k) (get_or_empty (reverseIndex mc) f) = get_or_empty (reverseIndex mc) f" for f
    using assms None by (auto simp: filter_id_conv memo_inv_def)
  ultimately show ?thesis using same assms by simp
next
  case (Some e)
  have c: "cache (removeEntry k mc) = filter (\<lambda>p. fst p \<noteq> k) (cache mc)"
    using Some by (simp add: removeEntry_def delete_filter)
  have a: "accessOrder (removeEntry k mc) = filter (\<lambda>x. x \<noteq> k) (accessOrder mc)"
    using Some assms by (simp add: removeEntry_def remove1_filter_distinct memo_inv_def)
  have r: "get_or_empty (reverseIndex (removeEntry k mc)) f
             = filter (\<lambda>x. x \<noteq> k) (get_or_empty (reverseIndex mc) f)" for f
  proof (cases "f \<in> set (impactSet e) \<or> f = k")
    case True
    then show ?thesis using removeEntry_index[OF Some, of f] by (simp add: removeAll_filter)
  next
    case False
    then have "k \<notin> set (get_or_empty (reverseIndex mc) f)"
      using assms Some by (auto simp: memo_inv_def)
    then have "filter (\<lambda>x. x \<noteq> k) (get_or_empty (reverseIndex mc) f) = get_or_empty (reverseIndex mc) f"
      by (auto simp: filter_id_conv)
    then show ?thesis using removeEntry_index[OF Some, of f] False by simp
  qed
  have m: "map_of (filter (\<lambda>p. fst p \<noteq> k) (cache mc)) k' = (if k' = k then None else map_of (cache mc) k')" for k'
    using delete_conv'[of k "cache mc"] by (simp add: delete_filter fun_eq_iff)
  have inv: "memo_inv (removeEntry k mc)"
    unfolding memo_inv_def c a
  proof (intro conjI allI)
    show "distinct (map fst (filter (\<lambda>p. fst p \<noteq> k) (cache mc)))"
      using assms by (simp add: memo_inv_def distinct_map_filter)
    show "distinct (filter (\<lambda>x. x \<noteq> k) (accessOrder mc))"
      using assms by (simp add: memo_inv_def)
    show "set (filter (\<lambda>x. x \<noteq> k) (accessOrder mc)) = fst ` set (filter (\<lambda>p. fst p \<noteq> k) (cache mc))"
      using assms by (auto simp: memo_inv_def)
    fix f k'
    show "k' \<in> set (get_or_empty (reverseIndex (removeEntry k mc)) f) \<longleftrightarrow>
            (\<exists>e. map_of (filter (\<lambda>p. fst p \<noteq> k) (cache mc)) k' = Some e \<and> (f \<in> set (impactSet e) \<or> f = k'))"
      using assms by (auto simp: r m memo_inv_def)
  qed
  show ?thesis using c a r inv Some by (simp add: removeEntry_def)
qed

lemma fold_removeEntry:
  assumes "memo_inv mc"
  shows "memo_inv (fold removeEntry ks mc) \<and>
         cache (fold removeEntry ks mc) = filter (\<lambda>p. fst p \<notin> set ks) (cache mc) \<and>
         accessOrder (fold removeEntry ks mc) = filter (\<lambda>x. x \<notin> set ks) (accessOrder mc) \<and>
         (\<forall>f. get_or_empty (reverseIndex (fold removeEntry ks mc)) f
                = filter (\<lambda>x. x \<notin> set ks) (get_or_empty (reverseIndex mc) f)) \<and>
         hits (fold removeEntry ks mc) = hits mc \<and> misses (fold removeEntry ks mc) = misses mc \<and>
         maxSize (fold removeEntry ks mc) = maxSize mc"
  using assms
proof (induction ks arbitrary: mc)
  case Nil
  then show ?case by simp
next
  case (Cons k ks)
  note s = removeEntry_step[OF Cons.prems, of k]
  from s have inv1: "memo_inv (removeEntry k mc)" by blast
  note ih = Cons.IH[OF inv1]
  show ?case using s ih by simp
qed

lemma fold_set_add: "set (fold set_add xs acc) = set acc \<union> set xs"
  by (induction xs arbitrary: acc) (auto simp: set_add_def)

lemma distinct_fold_set_add: "distinct acc \<Longrightarrow> distinct (fold set_add xs acc)"
  by (induction xs arbitrary: acc) (auto simp: set_add_def)

lemma keysToInvalidate_aux:
  "set (fold (\<lambda>file acc. case map_of ri file of None \<Rightarrow> acc | Some keys \<Rightarrow> fold set_add keys acc) fs acc0)
     = set acc0 \<union> (\<Union>f \<in> set fs. set (get_or_empty ri f))"
  "distinct acc0 \<Longrightarrow>
     distinct (fold (\<lambda>file acc. case map_of ri file of None \<Rightarrow> acc | Some keys \<Rightarrow> fold set_add keys acc) fs acc0)"
  by (induction fs arbitrary: acc0)
     (auto simp: get_or_empty_def fold_set_add distinct_fold_set_add split: option.splits)

lemma keysToInvalidate_set:
  "set (keysToInvalidate fs mc) = (\<Union>f \<in> set fs. set (get_or_empty (reverseIndex mc) f))"
  "distinct (keysToInvalidate fs mc)"
  by (simp_all add: keysToInvalidate_def keysToInvalidate_aux)

lemma memo_inv_create: "memo_inv (createMemoCache n)"
  by (simp add: memo_inv_def createMemoCache_def get_or_empty_def)

lemma memo_inv_invalidateAll: "memo_inv (invalidateAll mc)"
  by (simp add: memo_inv_def invalidateAll_def get_or_empty_def)

lemma memo_inv_touchKey:
  assumes "memo_inv mc" "k \<in> fst ` set (cache mc)"
  shows "memo_inv (touchKey k mc)"
  using assms by (auto simp: memo_inv_def touchKey_def)

lemma memo_inv_get: "memo_inv mc \<Longrightarrow> memo_inv (snd (memo_get k mc))"
proof (cases "map_of (cache mc) k")
  case None
  assume "memo_inv mc"
  with None show ?thesis by (simp add: memo_get_def memo_inv_def)
next
  case (Some e)
  assume inv: "memo_inv mc"
  from Some have "k \<in> fst ` set (cache mc)"
    by (metis map_of_eq_None_iff option.distinct(1))
  moreover from inv have "memo_inv (mc\<lparr>hits := hits mc + 1\<rparr>)" by (simp add: memo_inv_def)
  ultimately have "memo_inv (touchKey k (mc\<lparr>hits := hits mc + 1\<rparr>))"
    by (intro memo_inv_touchKey) simp_all
  with Some show ?thesis by (simp add: memo_get_def)
qed

definition hitKeys :: "path list \<Rightarrow> MemoCache \<Rightarrow> path set" where
  "hitKeys delta mc =
     {k. \<exists>e. map_of (cache mc) k = Some e \<and> set delta \<inter> (set (impactSet e) \<union> {k}) \<noteq> {}}"

lemma memo_inv_index:
  "memo_inv mc \<Longrightarrow>
     set (get_or_empty (reverseIndex mc) f) =
       {k. \<exists>e. map_of (cache mc) k = Some e \<and> (f \<in> set (impactSet e) \<or> f = k)}"
  unfolding memo_inv_def by blast

lemma keysToInvalidate_hitKeys:
  assumes "memo_inv mc"
  shows "set (keysToInvalidate delta mc) = hitKeys delta mc"
  unfolding keysToInvalidate_set hitKeys_def memo_inv_index[OF assms] by blast

lemma map_of_filter_keys:
  "map_of (filter (\<lambda>p. fst p \<notin> K) xs) k = (if k \<in> K then None else map_of xs k)"
  by (induction xs) auto

lemma addToReverseIndex_get:
  "get_or_empty (addToReverseIndex f key ri) f' =
     (if f' = f then set_add key (get_or_empty ri f) else get_or_empty ri f')"
  by (auto simp: addToReverseIndex_def get_or_empty_update split: option.splits)
     (auto simp: get_or_empty_def set_add_def)

lemma fold_addToReverseIndex_mem:
  "k' \<in> set (get_or_empty (fold (\<lambda>file. addToReverseIndex file key) fs ri) f) \<longleftrightarrow>
     k' \<in> set (get_or_empty ri f) \<or> (k' = key \<and> f \<in> set fs)"
  by (induction fs arbitrary: ri) (auto simp: addToReverseIndex_get set_add_def)

lemma memo_inv_lengths: "memo_inv mc \<Longrightarrow> length (cache mc) = length (accessOrder mc)"
proof -
  assume inv: "memo_inv mc"
  then have "card (set (accessOrder mc)) = card (set (map fst (cache mc)))"
    by (simp add: memo_inv_def)
  with inv show ?thesis
    by (metis distinct_card length_map memo_inv_def)
qed

lemma evict_step:
  assumes "memo_inv mc" "accessOrder mc = x # rest"
  shows "removeEntry x (mc\<lparr>accessOrder := rest\<rparr>) = removeEntry x mc"
proof -
  from assms have "x \<in> fst ` set (cache mc)" "x \<notin> set rest"
    by (auto simp: memo_inv_def)
  then obtain e where "map_of (cache mc) x = Some e"
    by (metis map_of_eq_None_iff not_Some_eq)
  with assms(2) \<open>x \<notin> set rest\<close> show ?thesis
    by (simp add: removeEntry_def remove1_idem)
qed

lemma memo_inv_evictLRU: "memo_inv mc \<Longrightarrow> memo_inv (evictLRU mc)"
proof (induction mc rule: evictLRU.induct)
  case (1 mc)
  show ?case
  proof (cases "maxSize mc < length (cache mc) \<and> accessOrder mc \<noteq> []")
    case False
    then have "evictLRU mc = mc" by (subst evictLRU.simps) auto
    then show ?thesis using "1.prems" by simp
  next
    case True
    then obtain x rest where ao: "accessOrder mc = x # rest" by (cases "accessOrder mc") auto
    have st: "removeEntry (hd (accessOrder mc)) (mc\<lparr>accessOrder := tl (accessOrder mc)\<rparr>) = removeEntry x mc"
      using evict_step[OF "1.prems" ao] ao by simp
    have "memo_inv (removeEntry x mc)" using removeEntry_step[OF "1.prems"] by blast
    with "1.IH"[OF True] st have "memo_inv (evictLRU (removeEntry x mc))" by simp
    then show ?thesis using True st by (subst evictLRU.simps) simp
  qed
qed

lemma evictLRU_keeps_newest:
  "memo_inv mc \<Longrightarrow> accessOrder mc = xs @ [k] \<Longrightarrow> 1 \<le> maxSize mc \<Longrightarrow>
     map_of (cache (evictLRU mc)) k = map_of (cache mc) k"
proof (induction mc arbitrary: xs rule: evictLRU.induct)
  case (1 mc)
  show ?case
  proof (cases "maxSize mc < length (cache mc) \<and> accessOrder mc \<noteq> []")
    case False
    then have "evictLRU mc = mc" by (subst evictLRU.simps) auto
    then show ?thesis by simp
  next
    case True
    with "1.prems" have "2 \<le> length (accessOrder mc)"
      using memo_inv_lengths[of mc] by simp
    with "1.prems"(2) obtain x rest where xs: "xs = x # rest" by (cases xs) auto
    then have ao: "accessOrder mc = x # (rest @ [k])" using "1.prems"(2) by simp
    have xk: "x \<noteq> k" using "1.prems"(1) ao by (auto simp: memo_inv_def)
    have st: "removeEntry (hd (accessOrder mc)) (mc\<lparr>accessOrder := tl (accessOrder mc)\<rparr>) = removeEntry x mc"
      using evict_step[OF "1.prems"(1) ao] ao by simp
    note rs = removeEntry_step[OF "1.prems"(1), of x]
    have inv': "memo_inv (removeEntry x mc)" using rs by blast
    have ao': "accessOrder (removeEntry x mc) = rest @ [k]"
    proof -
      have "x \<notin> set (rest @ [k])" using "1.prems"(1) ao by (auto simp: memo_inv_def)
      then have "filter (\<lambda>y. y \<noteq> x) (rest @ [k]) = rest @ [k]"
        by (auto simp: filter_id_conv)
      with rs ao show ?thesis by simp
    qed
    have ms: "1 \<le> maxSize (removeEntry x mc)" using rs "1.prems"(3) by simp
    have "map_of (cache (evictLRU (removeEntry x mc))) k = map_of (cache (removeEntry x mc)) k"
      using "1.IH"[OF True] st inv' ao' ms by simp
    moreover have "map_of (cache (removeEntry x mc)) k = map_of (cache mc) k"
    proof -
      have "cache (removeEntry x mc) = filter (\<lambda>p. fst p \<notin> {x}) (cache mc)" using rs by simp
      then have "map_of (cache (removeEntry x mc)) k = (if k \<in> {x} then None else map_of (cache mc) k)"
        by (simp only: map_of_filter_keys)
      then show ?thesis using xk by simp
    qed
    ultimately show ?thesis using True st by (subst evictLRU.simps) simp
  qed
qed

lemma memo_set_before_evict:
  fixes mc :: MemoCache and k :: path and e :: MemoEntry
  assumes "memo_inv mc"
  defines "mc1 \<equiv> (if has_key (cache mc) k then removeEntry k mc else mc)"
  defines "mc3 \<equiv> (touchKey k (mc1\<lparr>cache := AList.update k e (cache mc1)\<rparr>))
                    \<lparr>reverseIndex :=
                       addToReverseIndex k k
                         (fold (\<lambda>file. addToReverseIndex file k) (impactSet e) (reverseIndex mc1))\<rparr>"
  shows "memo_inv mc3 \<and> accessOrder mc3 = accessOrder mc1 @ [k] \<and> map_of (cache mc3) k = Some e \<and>
         maxSize mc3 = maxSize mc \<and> memo_set k e mc = evictLRU mc3"
proof -
  have inv1: "memo_inv mc1" using assms(1) removeEntry_step[OF assms(1)] by (simp add: mc1_def)
  have nk: "k \<notin> fst ` set (cache mc1)"
  proof (cases "has_key (cache mc) k")
    case True
    then show ?thesis using removeEntry_step[OF assms(1), of k] by (auto simp: mc1_def)
  next
    case False
    then show ?thesis by (simp add: mc1_def has_key_iff)
  qed
  then have nao: "k \<notin> set (accessOrder mc1)" using inv1 by (simp add: memo_inv_def)
  have ao: "accessOrder mc3 = accessOrder mc1 @ [k]"
    using nao by (simp add: mc3_def touchKey_def remove1_idem)
  have c: "cache mc3 = AList.update k e (cache mc1)" by (simp add: mc3_def touchKey_def)
  have none: "map_of (cache mc1) k = None" using nk by (simp add: map_of_eq_None_iff)
  have nri: "k \<notin> set (get_or_empty (reverseIndex mc1) f)" for f
    unfolding memo_inv_index[OF inv1, of f] using none by simp
  have ri: "k' \<in> set (get_or_empty (reverseIndex mc3) f) \<longleftrightarrow>
              k' \<in> set (get_or_empty (reverseIndex mc1) f) \<or> (k' = k \<and> (f \<in> set (impactSet e) \<or> f = k))"
    for k' f
    by (auto simp: mc3_def touchKey_def addToReverseIndex_get fold_addToReverseIndex_mem set_add_def)
  have inv3: "memo_inv mc3"
    unfolding memo_inv_def
  proof (intro conjI allI)
    show "distinct (map fst (cache mc3))"
      using inv1 by (simp add: c memo_inv_def distinct_update)
    show "distinct (accessOrder mc3)" using inv1 nao by (simp add: ao memo_inv_def)
    show "set (accessOrder mc3) = fst ` set (cache mc3)"
      using inv1 by (auto simp: ao c memo_inv_def dom_update)
    fix f k'
    show "k' \<in> set (get_or_empty (reverseIndex mc3) f) \<longleftrightarrow>
            (\<exists>e'. map_of (cache mc3) k' = Some e' \<and> (f \<in> set (impactSet e') \<or> f = k'))"
    proof (cases "k' = k")
      case True
      then show ?thesis using nri[of f] by (simp add: ri c update_conv')
    next
      case False
      then show ?thesis
        using memo_inv_index[OF inv1, of f] by (simp add: ri c update_conv')
    qed
  qed
  have ms: "maxSize mc3 = maxSize mc"
    using removeEntry_step[OF assms(1), of k] by (simp add: mc3_def mc1_def touchKey_def)
  have "memo_set k e mc = evictLRU mc3"
    by (simp add: memo_set_def mc3_def mc1_def Let_def touchKey_def)
  moreover have "map_of (cache mc3) k = Some e" by (simp add: c update_conv')
  ultimately show ?thesis using inv3 ao ms by blast
qed

lemma memo_inv_set:
  assumes "memo_inv mc"
  shows "memo_inv (memo_set k e mc)"
proof -
  from memo_set_before_evict[OF assms, of k e]
  obtain mc3 where "memo_inv mc3" "memo_set k e mc = evictLRU mc3" by blast
  then show ?thesis by (simp add: memo_inv_evictLRU)
qed

lemma memo_set_resident:
  assumes "memo_inv mc" "1 \<le> maxSize mc"
  shows "map_of (cache (memo_set k e mc)) k = Some e"
proof -
  from memo_set_before_evict[OF assms(1), of k e]
  obtain mc3 xs where *: "memo_inv mc3" "accessOrder mc3 = xs @ [k]" "map_of (cache mc3) k = Some e"
    "maxSize mc3 = maxSize mc" "memo_set k e mc = evictLRU mc3" by blast
  from evictLRU_keeps_newest[OF *(1,2)] *(3,4,5) assms(2) show ?thesis by simp
qed

lemma memo_inv_invalidate: "memo_inv mc \<Longrightarrow> memo_inv (snd (invalidate delta mc))"
  using fold_removeEntry[of mc "keysToInvalidate delta mc"]
  by (simp add: invalidate_def Let_def)

text \<open>
  C7. On a memo cache in a state the operations can reach, \<open>invalidate(\<Delta>)\<close> removes the
  keys \<open>k\<close> whose impact set or own name meets \<open>\<Delta>\<close>, and no others; it returns how many
  they are. Every other entry keeps its value and its place in the cache, its place in
  the recency order, and its listings in the reverse index; the counters and the
  capacity are untouched, and the result is again a reachable state.
\<close>

theorem invalidate_removes_exactly_hit_keys:
  assumes "memo_inv mc" and "invalidate delta mc = (n, mc')"
  shows "n = card (hitKeys delta mc) \<and>
         cache mc' = filter (\<lambda>p. fst p \<notin> hitKeys delta mc) (cache mc) \<and>
         (\<forall>k. map_of (cache mc') k = (if k \<in> hitKeys delta mc then None else map_of (cache mc) k)) \<and>
         accessOrder mc' = filter (\<lambda>k. k \<notin> hitKeys delta mc) (accessOrder mc) \<and>
         (\<forall>f. get_or_empty (reverseIndex mc') f
                = filter (\<lambda>k. k \<notin> hitKeys delta mc) (get_or_empty (reverseIndex mc) f)) \<and>
         hits mc' = hits mc \<and> misses mc' = misses mc \<and> maxSize mc' = maxSize mc \<and>
         memo_inv mc'"
proof -
  let ?ks = "keysToInvalidate delta mc"
  have ks: "set ?ks = hitKeys delta mc" by (rule keysToInvalidate_hitKeys[OF assms(1)])
  have n: "n = length ?ks" and mc': "mc' = fold removeEntry ?ks mc"
    using assms(2) by (simp_all add: invalidate_def Let_def)
  have card: "length ?ks = card (hitKeys delta mc)"
    using keysToInvalidate_set(2)[of delta mc] ks by (metis distinct_card)
  note f = fold_removeEntry[OF assms(1), of ?ks]
  have c: "cache mc' = filter (\<lambda>p. fst p \<notin> hitKeys delta mc) (cache mc)"
    using f mc' ks by simp
  have "map_of (cache mc') k = (if k \<in> hitKeys delta mc then None else map_of (cache mc) k)" for k
    unfolding c by (rule map_of_filter_keys)
  then show ?thesis using f mc' ks n card c by simp
qed


definition chainMemo :: MemoCache where
  "chainMemo =
     memo_set ''a'' \<lparr>impactSet = [], directCount = 0, transitiveCount = 0, entry_riskLevel = NONE,
                     entry_cascadeLevels = None, computedAt = 1\<rparr>
       (memo_set ''c'' \<lparr>impactSet = [''b'', ''a''], directCount = 1, transitiveCount = 1,
                        entry_riskLevel = LOW, entry_cascadeLevels = None, computedAt = 0\<rparr>
          (createMemoCache 500))"

theorem invalidate_removes_exactly_hit_keys_witness:
  "memo_inv chainMemo \<and>
   map fst (cache chainMemo) = [''c'', ''a''] \<and>
   fst (invalidate [''b''] chainMemo) = 1 \<and>
   card (hitKeys [''b''] chainMemo) = 1 \<and>
   map fst (cache (snd (invalidate [''b''] chainMemo))) = [''a''] \<and>
   map_of (cache (snd (invalidate [''b''] chainMemo))) ''a'' = map_of (cache chainMemo) ''a'' \<and>
   accessOrder (snd (invalidate [''b''] chainMemo)) = [''a'']"
proof -
  have inv: "memo_inv chainMemo"
    unfolding chainMemo_def by (intro memo_inv_set memo_inv_create)
  have eq: "invalidate [''b''] chainMemo
              = (fst (invalidate [''b''] chainMemo), snd (invalidate [''b''] chainMemo))"
    by simp
  have ev: "map fst (cache chainMemo) = [''c'', ''a'']"
    "fst (invalidate [''b''] chainMemo) = 1"
    "map fst (cache (snd (invalidate [''b''] chainMemo))) = [''a'']"
    "accessOrder (snd (invalidate [''b''] chainMemo)) = [''a'']"
    "map_of (cache (snd (invalidate [''b''] chainMemo))) ''a'' = map_of (cache chainMemo) ''a''"
    by code_simp+
  from invalidate_removes_exactly_hit_keys[OF inv eq] ev inv
  show ?thesis by simp
qed

subsection \<open>Memo fast path against a fresh computation\<close>

text \<open>
  C2, as stated, fails. On the three-file cycle the fresh result for \<open>x\<close> lists both
  \<open>z\<close> and \<open>y\<close> as direct dependents, with the circular cluster and the SCC counts;
  the second call is served from the memo cache, recomputes \<open>directDependents\<close> from
  \<open>Reverse[x] = [z]\<close> alone, moves \<open>y\<close> to the transitive dependents, and carries no
  \<open>circularCluster\<close>, \<open>sccCount\<close> or \<open>cyclicSCCs\<close>.
\<close>

theorem cached_result_differs_on_cycle:
  "(case analyzeImpact plainHost 0 ''x'' cycleGraph (createMemoCache 500) of
      (first, mc1) \<Rightarrow>
        first = Inr \<lparr>filePath = ''x'', relativePath = ''x'', riskLevel = LOW,
                     directDependents = [''z'', ''y''], transitiveDependents = [],
                     totalImpacted = 2, cascadeLevels = Some [(''z'', 0), (''y'', 0)],
                     circularCluster = Some [''z'', ''y''], sccCount = Some 1,
                     cyclicSCCs = Some 1, fromCache = None\<rparr> \<and>
        fst (analyzeImpact plainHost 1 ''x'' cycleGraph mc1) =
          Inr \<lparr>filePath = ''x'', relativePath = ''x'', riskLevel = LOW,
               directDependents = [''z''], transitiveDependents = [''y''],
               totalImpacted = 2, cascadeLevels = Some [(''z'', 0), (''y'', 0)],
               circularCluster = None, sccCount = None, cyclicSCCs = None,
               fromCache = Some True\<rparr>)"
  by code_simp

lemma analyzeImpactWithSCC_total:
  "analyzeImpactWithSCC h f g s = Inr r \<Longrightarrow> map_of (nodeToComponent s) f \<noteq> None \<Longrightarrow>
     totalImpacted r = length (directDependents r) + length (transitiveDependents r)"
  by (auto simp: analyzeImpactWithSCC_def Let_def sum_length_filter_compl
           split: option.splits if_splits sum.splits prod.splits)

text \<open>
  C2, amended. Let the first call for \<open>f\<close> miss a memo cache of capacity at least one
  and return a result. A second call on the same graph is then served from the cache:
  it has \<open>fromCache = true\<close>, the same \<open>riskLevel\<close> and \<open>cascadeLevels\<close> as the first
  result, and \<open>totalImpacted\<close> equal to the number of direct plus transitive dependents of
  the first result (which is the first \<open>totalImpacted\<close> when the SCC-aware path computed
  it). Its \<open>directDependents\<close> are \<open>Reverse[f]\<close> read anew, its
  \<open>transitiveDependents\<close> are the cached impact set without them, and it carries no
  \<open>circularCluster\<close>, \<open>sccCount\<close> or \<open>cyclicSCCs\<close>.
\<close>

theorem second_call_served_from_cache:
  assumes "memo_inv mc" and "1 \<le> maxSize mc" and "map_of (cache mc) f = None"
    and "analyzeImpact h now f g mc = (Inr r1, mc1)"
  shows "fst (analyzeImpact h now' f g mc1) =
           Inr \<lparr>filePath = f, relativePath = toRelative h f,
                riskLevel = riskLevel r1,
                directDependents = map (toRelative h) (get_or_empty (reverse g) f),
                transitiveDependents =
                  filter (\<lambda>rel. rel \<notin> set (map (toRelative h) (get_or_empty (reverse g) f)))
                    (map (toRelative h)
                       (map (toAbsolute h) (directDependents r1 @ transitiveDependents r1))),
                totalImpacted = length (directDependents r1) + length (transitiveDependents r1),
                cascadeLevels = cascadeLevels r1,
                circularCluster = None, sccCount = None, cyclicSCCs = None,
                fromCache = Some True\<rparr> \<and>
         (\<forall>s. scc g = Some s \<and> map_of (nodeToComponent s) f \<noteq> None \<longrightarrow>
              totalImpacted r1 = length (directDependents r1) + length (transitiveDependents r1))"
proof -
  let ?mcm = "mc\<lparr>misses := misses mc + 1\<rparr>"
  let ?e = "\<lparr>impactSet = map (toAbsolute h) (directDependents r1 @ transitiveDependents r1),
             directCount = length (directDependents r1),
             transitiveCount = length (transitiveDependents r1),
             entry_riskLevel = riskLevel r1,
             entry_cascadeLevels = cascadeLevels r1,
             computedAt = now\<rparr>"
  have g: "memo_get f mc = (None, ?mcm)" using assms(3) by (simp add: memo_get_def)
  let ?fresh = "(case scc g of Some s \<Rightarrow> analyzeImpactWithSCC h f g s
                | None \<Rightarrow> Inr (analyzeImpactBFS h f g))"
  have fr: "?fresh = Inr r1" and mc1: "mc1 = memo_set f ?e ?mcm"
    using assms(4) g by (auto simp: analyzeImpact_def split: sum.splits)
  have inv: "memo_inv ?mcm" using assms(1) by (simp add: memo_inv_def)
  have "map_of (cache mc1) f = Some ?e"
    unfolding mc1 using memo_set_resident[OF inv, of f ?e] assms(2) by simp
  then have "memo_get f mc1 = (Some ?e, touchKey f (mc1\<lparr>hits := hits mc1 + 1\<rparr>))"
    by (simp add: memo_get_def)
  then have one: "fst (analyzeImpact h now' f g mc1) =
           Inr \<lparr>filePath = f, relativePath = toRelative h f,
                riskLevel = riskLevel r1,
                directDependents = map (toRelative h) (get_or_empty (reverse g) f),
                transitiveDependents =
                  filter (\<lambda>rel. rel \<notin> set (map (toRelative h) (get_or_empty (reverse g) f)))
                    (map (toRelative h)
                       (map (toAbsolute h) (directDependents r1 @ transitiveDependents r1))),
                totalImpacted = length (directDependents r1) + length (transitiveDependents r1),
                cascadeLevels = cascadeLevels r1,
                circularCluster = None, sccCount = None, cyclicSCCs = None,
                fromCache = Some True\<rparr>"
    by (simp add: analyzeImpact_def Let_def)
  have two: "totalImpacted r1 = length (directDependents r1) + length (transitiveDependents r1)"
    if "scc g = Some s \<and> map_of (nodeToComponent s) f \<noteq> None" for s
    using fr that analyzeImpactWithSCC_total[of h f g s r1] by simp
  from one two show ?thesis by blast
qed

theorem second_call_served_from_cache_witness:
  "memo_inv (createMemoCache 500) \<and> 1 \<le> maxSize (createMemoCache 500) \<and>
   map_of (cache (createMemoCache 500)) ''x'' = None \<and>
   (\<exists>r1 mc1. analyzeImpact plainHost 0 ''x'' cycleGraph (createMemoCache 500) = (Inr r1, mc1) \<and>
      riskLevel r1 = LOW \<and>
      (case fst (analyzeImpact plainHost 1 ''x'' cycleGraph mc1) of
         Inr r2 \<Rightarrow> riskLevel r2 = LOW \<and> fromCache r2 = Some True \<and> sccCount r2 = None
       | Inl e \<Rightarrow> False))"
proof -
  let ?R = "analyzeImpact plainHost 0 ''x'' cycleGraph (createMemoCache 500)"
  have a: "memo_inv (createMemoCache 500)" by (rule memo_inv_create)
  have b: "1 \<le> maxSize (createMemoCache 500)" by (simp add: createMemoCache_def)
  have c: "map_of (cache (createMemoCache 500)) ''x'' = None" by (simp add: createMemoCache_def)
  define r1 where "r1 = \<lparr>filePath = ''x'', relativePath = ''x'', riskLevel = LOW,
                     directDependents = [''z'', ''y''], transitiveDependents = [],
                     totalImpacted = 2, cascadeLevels = Some [(''z'', 0), (''y'', 0)],
                     circularCluster = Some [''z'', ''y''], sccCount = Some 1,
                     cyclicSCCs = Some 1, fromCache = None\<rparr>"
  have "fst ?R = Inr \<lparr>filePath = ''x'', relativePath = ''x'', riskLevel = LOW,
                     directDependents = [''z'', ''y''], transitiveDependents = [],
                     totalImpacted = 2, cascadeLevels = Some [(''z'', 0), (''y'', 0)],
                     circularCluster = Some [''z'', ''y''], sccCount = Some 1,
                     cyclicSCCs = Some 1, fromCache = None\<rparr>"
    by code_simp
  then have r1: "fst ?R = Inr r1" "riskLevel r1 = LOW" by (simp_all add: r1_def)
  then have d: "?R = (Inr r1, snd ?R)" by (metis prod.collapse)
  from second_call_served_from_cache[OF a b c d, of 1] r1 d a b c
  show ?thesis by (intro conjI exI[of _ r1] exI[of _ "snd ?R"]) simp_all
qed

subsection \<open>Change coupling\<close>


















subsection \<open>Kahn's algorithm on a well-formed acyclic condensation\<close>

text \<open>
  What the condensation built by \<open>condenseGraph\<close> will be shown to satisfy: both maps
  have the keys \<open>0, \<dots>, n - 1\<close>, the lists are duplicate-free, \<open>reverse\<close> is the transpose
  of \<open>forward\<close>, and every forward edge leads to a smaller index (Tarjan's algorithm
  emits a component after the components it depends on).
\<close>

definition dag_ok :: "(nat \<times> nat list) list \<Rightarrow> (nat \<times> nat list) list \<Rightarrow> nat \<Rightarrow> bool" where
  "dag_ok fw rv n \<longleftrightarrow>
     map fst fw = [0..<n] \<and>
     (\<forall>u. distinct (get_or_empty fw u)) \<and>
     (\<forall>u. distinct (get_or_empty rv u)) \<and>
     (\<forall>u v. v \<in> set (get_or_empty fw u) \<longleftrightarrow> u \<in> set (get_or_empty rv v)) \<and>
     (\<forall>u v. v \<in> set (get_or_empty fw u) \<longrightarrow> v < u \<and> u < n)"

definition topo :: "(nat \<times> nat list) list \<Rightarrow> nat list \<Rightarrow> bool" where
  "topo fw order \<longleftrightarrow>
     (\<forall>i < length order. \<forall>v \<in> set (get_or_empty fw (order ! i)). v \<in> set (take i order))"

lemma degree_of_update:
  "degree_of (AList.update k d m) k' = (if k' = k then d else degree_of m k')"
  by (simp add: degree_of_def update_conv')

lemma get_or_empty_Cons:
  "get_or_empty ((k, v) # m) k' = (if k' = k then v else get_or_empty m k')"
  by (simp add: get_or_empty_def)

lemma get_or_empty_notin: "k \<notin> fst ` set m \<Longrightarrow> get_or_empty m k = []"
proof -
  assume "k \<notin> fst ` set m"
  then have "map_of m k = None" by (simp add: map_of_eq_None_iff)
  then show ?thesis by (simp add: get_or_empty_def)
qed

lemma fold_inDegree:
  "distinct (map fst es) \<Longrightarrow> set (map fst es) \<subseteq> set (map fst m) \<Longrightarrow>
     map fst (fold (\<lambda>(src, dsts) inDegree.
                      AList.update src (degree_of inDegree src + int (length dsts)) inDegree) es m)
       = map fst m \<and>
     (\<forall>u. degree_of (fold (\<lambda>(src, dsts) inDegree.
                      AList.update src (degree_of inDegree src + int (length dsts)) inDegree) es m) u
           = degree_of m u + int (length (get_or_empty es u)))"
proof (induction es arbitrary: m)
  case Nil
  then show ?case by (simp add: get_or_empty_def)
next
  case (Cons e es)
  obtain src dsts where e: "e = (src, dsts)" by (cases e)
  let ?m1 = "AList.update src (degree_of m src + int (length dsts)) m"
  have k1: "map fst ?m1 = map fst m" using Cons.prems e by (simp add: update_keys)
  have d: "distinct (map fst es)" and s: "set (map fst es) \<subseteq> set (map fst ?m1)"
    using Cons.prems e k1 by auto
  have nsrc: "get_or_empty es src = []"
    using Cons.prems(1) e by (intro get_or_empty_notin) auto
  from Cons.IH[OF d s] k1 nsrc show ?case
    by (auto simp: e degree_of_update get_or_empty_Cons)
qed

lemma initialInDegree_props:
  assumes "dag_ok (dag_forward dag) rv (length (nodes dag))"
  shows "map fst (initialInDegree dag) = [0..<length (nodes dag)]"
    and "degree_of (initialInDegree dag) u = int (length (get_or_empty (dag_forward dag) u))"
proof -
  let ?n = "length (nodes dag)"
  let ?m0 = "map (\<lambda>i. (i, 0::int)) [0..<?n]"
  have k0: "map fst ?m0 = [0..<?n]" by (simp add: comp_def)
  have z: "degree_of ?m0 u = 0" for u
    by (simp add: degree_of_def map_of_map_restrict restrict_map_def)
  have d: "distinct (map fst (dag_forward dag))"
    and s: "set (map fst (dag_forward dag)) \<subseteq> set (map fst ?m0)"
    using assms by (simp_all add: dag_ok_def k0)
  from fold_inDegree[OF d s] k0 z
  show "map fst (initialInDegree dag) = [0..<?n]"
    and "degree_of (initialInDegree dag) u = int (length (get_or_empty (dag_forward dag) u))"
    by (simp_all add: initialInDegree_def)
qed

lemma zero_degree_keys:
  "distinct (map fst m) \<Longrightarrow>
     map fst (filter (\<lambda>(node, degree). degree = 0) m) = filter (\<lambda>k. degree_of m k = 0) (map fst m)"
proof (induction m)
  case Nil
  then show ?case by simp
next
  case (Cons p m)
  obtain k d where p: "p = (k, d)" by (cases p)
  have "filter (\<lambda>k'. degree_of ((k, d) # m) k' = 0) (map fst m) = filter (\<lambda>k'. degree_of m k' = 0) (map fst m)"
    using Cons.prems p by (intro filter_cong) (auto simp: degree_of_def)
  with Cons show ?case by (auto simp: p degree_of_def)
qed

lemma decrementDependents_closed_form:
  "distinct ds \<Longrightarrow> decrementDependents ds (deg, q) = (deg', q') \<Longrightarrow>
     q' = q @ filter (\<lambda>d. degree_of deg d = 1) ds \<and>
     (\<forall>u. degree_of deg' u = degree_of deg u - (if u \<in> set ds then 1 else 0))"
proof (induction ds arbitrary: deg q)
  case Nil
  then show ?case by simp
next
  case (Cons d ds)
  let ?deg1 = "AList.update d (degree_of deg d - 1) deg"
  let ?q1 = "if degree_of deg d - 1 = 0 then q @ [d] else q"
  from Cons.prems have run: "decrementDependents ds (?deg1, ?q1) = (deg', q')"
    by (simp add: Let_def)
  from Cons.prems have dd: "distinct ds" "d \<notin> set ds" by simp_all
  note ih = Cons.IH[OF dd(1) run]
  have same: "filter (\<lambda>e. degree_of ?deg1 e = 1) ds = filter (\<lambda>e. degree_of deg e = 1) ds"
    using dd(2) by (intro filter_cong) (auto simp: degree_of_update)
  have "q' = q @ filter (\<lambda>e. degree_of deg e = 1) (d # ds)"
    using ih same by auto
  moreover have "\<forall>u. degree_of deg' u = degree_of deg u - (if u \<in> set (d # ds) then 1 else 0)"
    using ih dd(2) by (auto simp: degree_of_update)
  ultimately show ?case by blast
qed

definition kahn_inv ::
  "(nat \<times> nat list) list \<Rightarrow> nat \<Rightarrow> (nat \<times> int) list \<Rightarrow> nat list \<Rightarrow> nat list \<Rightarrow> bool" where
  "kahn_inv fw n deg q ord \<longleftrightarrow>
     distinct (ord @ q) \<and> set (ord @ q) \<subseteq> {0..<n} \<and>
     (\<forall>u. degree_of deg u = int (length (filter (\<lambda>v. v \<notin> set ord) (get_or_empty fw u)))) \<and>
     (\<forall>u < n. u \<in> set (ord @ q) \<longleftrightarrow> degree_of deg u = 0) \<and>
     topo fw (ord @ q)"

lemma length_filter_neq:
  "distinct xs \<Longrightarrow> length (filter (\<lambda>v. v \<noteq> c) xs) = length xs - (if c \<in> set xs then 1 else 0)"
proof (induction xs)
  case Nil
  then show ?case by simp
next
  case (Cons a xs)
  show ?case
  proof (cases "c \<in> set xs")
    case True
    then have "0 < length xs" by (cases xs) auto
    with Cons True show ?thesis by auto
  next
    case False
    then have "filter (\<lambda>v. v \<noteq> c) xs = xs" by (auto simp: filter_id_conv)
    with False show ?thesis by auto
  qed
qed

lemma topo_append:
  assumes "topo fw L" and "\<forall>d \<in> set P. \<forall>v \<in> set (get_or_empty fw d). v \<in> set L"
  shows "topo fw (L @ P)"
  unfolding topo_def
proof (intro allI impI ballI)
  fix i v
  assume i: "i < length (L @ P)" and v: "v \<in> set (get_or_empty fw ((L @ P) ! i))"
  show "v \<in> set (take i (L @ P))"
  proof (cases "i < length L")
    case True
    then have "(L @ P) ! i = L ! i" by (simp add: nth_append)
    with v assms(1) True have "v \<in> set (take i L)" unfolding topo_def by metis
    then show ?thesis using True by simp
  next
    case False
    then have "(L @ P) ! i = P ! (i - length L)" by (simp add: nth_append)
    moreover have "i - length L < length P" using False i by simp
    ultimately have "(L @ P) ! i \<in> set P" by simp
    with v assms(2) have "v \<in> set L" by blast
    then show ?thesis using False by simp
  qed
qed

lemma kahn_step:
  assumes ok: "dag_ok fw rv n" and inv: "kahn_inv fw n deg (c # q) ord"
    and run: "decrementDependents (get_or_empty rv c) (deg, q) = (deg', q')"
  shows "kahn_inv fw n deg' q' (ord @ [c])"
proof -
  let ?ds = "get_or_empty rv c"
  let ?pushed = "filter (\<lambda>d. degree_of deg d = 1) ?ds"
  let ?L = "ord @ c # q"
  have dds: "distinct ?ds" using ok by (simp add: dag_ok_def)
  from decrementDependents_closed_form[OF dds run]
  have q': "q' = q @ ?pushed"
    and deg': "\<And>u. degree_of deg' u = degree_of deg u - (if u \<in> set ?ds then 1 else 0)"
    by auto
  have mem: "u \<in> set ?ds \<longleftrightarrow> c \<in> set (get_or_empty fw u)" for u
    using ok by (simp add: dag_ok_def)
  have dL: "distinct ?L" and subL: "set ?L \<subseteq> {0..<n}"
    and I2: "\<And>u. degree_of deg u = int (length (filter (\<lambda>v. v \<notin> set ord) (get_or_empty fw u)))"
    and I3: "\<And>u. u < n \<Longrightarrow> u \<in> set ?L \<longleftrightarrow> degree_of deg u = 0"
    and tL: "topo fw ?L"
    using inv by (simp_all add: kahn_inv_def)
  have cord: "c \<notin> set ord" using dL by simp
  have I2': "degree_of deg' u = int (length (filter (\<lambda>v. v \<notin> set (ord @ [c])) (get_or_empty fw u)))"
    for u
  proof -
    let ?xs = "filter (\<lambda>v. v \<notin> set ord) (get_or_empty fw u)"
    have dx: "distinct ?xs" using ok by (simp add: dag_ok_def)
    have eq: "filter (\<lambda>v. v \<notin> set (ord @ [c])) (get_or_empty fw u) = filter (\<lambda>v. v \<noteq> c) ?xs"
      by (simp add: conj_commute)
    have cin: "c \<in> set ?xs \<longleftrightarrow> u \<in> set ?ds" using cord mem by simp
    show ?thesis
    proof (cases "u \<in> set ?ds")
      case True
      then have "c \<in> set ?xs" using cin by simp
      then have pos: "1 \<le> length ?xs" by (cases ?xs) auto
      have "length (filter (\<lambda>v. v \<noteq> c) ?xs) = length ?xs - 1"
        using \<open>c \<in> set ?xs\<close> length_filter_neq[OF dx, of c] by simp
      then have "int (length (filter (\<lambda>v. v \<noteq> c) ?xs)) = int (length ?xs) - 1"
        using pos by linarith
      moreover have "degree_of deg' u = int (length ?xs) - 1"
        using True deg'[of u] I2[of u] by simp
      ultimately show ?thesis unfolding eq by simp
    next
      case False
      then have "c \<notin> set ?xs" using cin by simp
      then have "length (filter (\<lambda>v. v \<noteq> c) ?xs) = length ?xs"
        using length_filter_neq[OF dx, of c] by auto
      moreover have "degree_of deg' u = int (length ?xs)"
        using False deg'[of u] I2[of u] by simp
      ultimately show ?thesis unfolding eq by simp
    qed
  qed
  have pos: "1 \<le> degree_of deg u" if "u \<in> set ?ds" for u
  proof -
    from that have "c \<in> set (filter (\<lambda>v. v \<notin> set ord) (get_or_empty fw u))"
      using cord mem by simp
    then have "0 < length (filter (\<lambda>v. v \<notin> set ord) (get_or_empty fw u))"
      by (cases "filter (\<lambda>v. v \<notin> set ord) (get_or_empty fw u)") auto
    then show ?thesis using I2[of u] by (simp add: Suc_le_eq)
  qed
  have dsn: "u < n" if "u \<in> set ?ds" for u
    using that ok mem[of u] by (auto simp: dag_ok_def)
  have pushed_new: "d \<notin> set ?L" if "d \<in> set ?pushed" for d
    using that I3[of d] dsn[of d] by auto
  have L': "(ord @ [c]) @ q' = ?L @ ?pushed" by (simp add: q')
  have d': "distinct (?L @ ?pushed)"
    using dL dds pushed_new by (auto simp del: set_filter)
  have sub': "set (?L @ ?pushed) \<subseteq> {0..<n}"
    using subL dsn by auto
  have I3': "u \<in> set (?L @ ?pushed) \<longleftrightarrow> degree_of deg' u = 0" if "u < n" for u
  proof (cases "u \<in> set ?ds")
    case True
    then show ?thesis using I3[OF that] pos[of u] deg'[of u] by auto
  next
    case False
    then show ?thesis using I3[OF that] deg'[of u] by auto
  qed
  have t': "topo fw (?L @ ?pushed)"
  proof (rule topo_append[OF tL], intro ballI)
    fix d v
    assume din: "d \<in> set ?pushed" and v: "v \<in> set (get_or_empty fw d)"
    from din have "degree_of deg' d = 0" using deg'[of d] by auto
    then have "filter (\<lambda>v. v \<notin> set (ord @ [c])) (get_or_empty fw d) = []"
      using I2'[of d] by simp
    with v have "v \<in> set (ord @ [c])" by (auto simp: filter_empty_conv)
    then show "v \<in> set ?L" by auto
  qed
  show ?thesis
    unfolding kahn_inv_def L' using d' sub' I2' I3' t' by blast
qed

lemma kahnLoop_correct:
  "dag_ok fw rv n \<Longrightarrow> kahn_inv fw n deg q ord \<Longrightarrow>
     distinct (kahnLoop rv deg q ord) \<and> set (kahnLoop rv deg q ord) = {0..<n} \<and>
     topo fw (kahnLoop rv deg q ord)"
proof (induction rv deg q ord rule: kahnLoop.induct)
  case (1 rv deg ord)
  have I2: "\<And>u. degree_of deg u = int (length (filter (\<lambda>v. v \<notin> set ord) (get_or_empty fw u)))"
    and I3: "\<And>u. u < n \<Longrightarrow> u \<in> set ord \<longleftrightarrow> degree_of deg u = 0"
    using "1.prems"(2) by (simp_all add: kahn_inv_def)
  have all: "u < n \<Longrightarrow> u \<in> set ord" for u
  proof (induction u rule: less_induct)
    case (less u)
    have "v \<in> set ord" if "v \<in> set (get_or_empty fw u)" for v
    proof -
      from that "1.prems"(1) have "v < u" by (auto simp: dag_ok_def)
      with less show ?thesis by simp
    qed
    then have "filter (\<lambda>v. v \<notin> set ord) (get_or_empty fw u) = []"
      by (auto simp: filter_empty_conv)
    then have "degree_of deg u = 0" using I2[of u] by simp
    with I3[OF less.prems] show ?case by simp
  qed
  with "1.prems"(2) show ?case by (auto simp: kahn_inv_def)
next
  case (2 rv deg c q ord)
  obtain deg' q' where run: "decrementDependents (get_or_empty rv c) (deg, q) = (deg', q')"
    by (cases "decrementDependents (get_or_empty rv c) (deg, q)") auto
  have inv': "kahn_inv fw n deg' q' (ord @ [c])"
    by (rule kahn_step[OF "2.prems"(1) "2.prems"(2) run])
  from "2.IH"[OF run[symmetric] "2.prems"(1) inv'] run show ?case by simp
qed

lemma topologicalSort_correct:
  assumes "dag_ok (dag_forward dag) (dag_reverse dag) (length (nodes dag))"
  shows "distinct (topologicalSort dag) \<and>
         set (topologicalSort dag) = {0..<length (nodes dag)} \<and>
         topo (dag_forward dag) (topologicalSort dag)"
proof (cases "length (nodes dag) = 0")
  case True
  then show ?thesis by (simp add: topologicalSort_def topo_def)
next
  case False
  let ?n = "length (nodes dag)"
  let ?fw = "dag_forward dag"
  let ?deg = "initialInDegree dag"
  let ?q = "map fst (filter (\<lambda>(node, degree). degree = 0) ?deg)"
  note ip = initialInDegree_props[OF assms]
  have q: "?q = filter (\<lambda>k. degree_of ?deg k = 0) [0..<?n]"
    using zero_degree_keys[of ?deg] ip(1) by simp
  have inv: "kahn_inv ?fw ?n ?deg ?q []"
    unfolding kahn_inv_def q
  proof (intro conjI allI impI)
    show "topo ?fw ([] @ filter (\<lambda>k. degree_of ?deg k = 0) [0..<?n])"
      unfolding topo_def
    proof (intro allI impI ballI)
      fix i v
      let ?xs = "filter (\<lambda>k. degree_of ?deg k = 0) [0..<?n]"
      assume i: "i < length ([] @ ?xs)" and v: "v \<in> set (get_or_empty ?fw (([] @ ?xs) ! i))"
      from i have "i < length ?xs" by simp
      then have "?xs ! i \<in> set ?xs" by (rule nth_mem)
      then have "degree_of ?deg (?xs ! i) = 0" by simp
      then have "get_or_empty ?fw (?xs ! i) = []" using ip(2)[of "?xs ! i"] by simp
      with v show "v \<in> set (take i ([] @ ?xs))" by simp
    qed
  qed (auto simp: ip(2))
  let ?order = "kahnLoop (dag_reverse dag) ?deg ?q []"
  from kahnLoop_correct[OF assms inv]
  have r: "distinct ?order" "set ?order = {0..<?n}" "topo ?fw ?order" by auto
  then have "length ?order = ?n" by (metis card_atLeastLessThan diff_zero distinct_card)
  then have "topologicalSort dag = ?order" using False
    by (simp add: topologicalSort_def Let_def)
  with r show ?thesis by simp
qed

subsection \<open>The condensation is well formed\<close>

text \<open>
  What \<open>condenseGraph\<close> needs from Tarjan's result: component indices are in range,
  and along every forward edge between mapped files the index does not grow.
\<close>

definition edges_descend :: "(path \<times> path list) list \<Rightarrow> (path \<times> nat) list \<Rightarrow> nat \<Rightarrow> bool" where
  "edges_descend fwmap ntc n \<longleftrightarrow>
     (\<forall>f i. map_of ntc f = Some i \<longrightarrow> i < n) \<and>
     (\<forall>(file, deps) \<in> set fwmap. \<forall>dep \<in> set deps. \<forall>u v.
        map_of ntc file = Some u \<and> map_of ntc dep = Some v \<longrightarrow> v \<le> u)"

definition cond_inv :: "nat \<Rightarrow> (nat \<times> nat list) list \<Rightarrow> (nat \<times> nat list) list \<Rightarrow> bool" where
  "cond_inv n fs rs \<longleftrightarrow> dag_ok fs rs n \<and> map fst rs = [0..<n]"

lemma add_to_set_at_key:
  assumes "map fst m = [0..<n]" "k < n"
  shows "\<exists>m'. add_to_set_at k v m = Some m' \<and> map fst m' = [0..<n] \<and>
              (\<forall>k'. get_or_empty m' k' = (if k' = k then set_add v (get_or_empty m k) else get_or_empty m k'))"
proof -
  from assms have "k \<in> fst ` set m" by (metis atLeastLessThan_iff list.set_map set_upt zero_le)
  then obtain s where s: "map_of m k = Some s"
    by (metis map_of_eq_None_iff not_Some_eq)
  let ?m' = "AList.update k (set_add v s) m"
  have "add_to_set_at k v m = Some ?m'" using s by (simp add: add_to_set_at_def)
  moreover have "map fst ?m' = [0..<n]"
    using assms \<open>k \<in> fst ` set m\<close> by (simp add: update_keys)
  moreover have "get_or_empty ?m' k' = (if k' = k then set_add v (get_or_empty m k) else get_or_empty m k')" for k'
    using s by (simp add: get_or_empty_update) (simp add: get_or_empty_def)
  ultimately show ?thesis by blast
qed

lemma set_add_props: "set (set_add v s) = insert v (set s)" "distinct s \<Longrightarrow> distinct (set_add v s)"
  by (auto simp: set_add_def)

lemma cond_inv_add:
  assumes "cond_inv n fs rs" "v < u" "u < n"
  shows "\<exists>fs' rs'. add_to_set_at u v fs = Some fs' \<and> add_to_set_at v u rs = Some rs' \<and>
                  cond_inv n fs' rs'"
proof -
  from assms(1) have kf: "map fst fs = [0..<n]" and kr: "map fst rs = [0..<n]"
    by (simp_all add: cond_inv_def dag_ok_def)
  from add_to_set_at_key[OF kf assms(3), of v]
  obtain fs' where fs': "add_to_set_at u v fs = Some fs'" "map fst fs' = [0..<n]"
    "\<And>k'. get_or_empty fs' k' = (if k' = u then set_add v (get_or_empty fs u) else get_or_empty fs k')"
    by blast
  have "v < n" using assms(2,3) by simp
  from add_to_set_at_key[OF kr this, of u]
  obtain rs' where rs': "add_to_set_at v u rs = Some rs'" "map fst rs' = [0..<n]"
    "\<And>k'. get_or_empty rs' k' = (if k' = v then set_add u (get_or_empty rs v) else get_or_empty rs k')"
    by blast
  have old: "(\<forall>u. distinct (get_or_empty fs u))" "(\<forall>u. distinct (get_or_empty rs u))"
    "(\<forall>u v. v \<in> set (get_or_empty fs u) \<longleftrightarrow> u \<in> set (get_or_empty rs v))"
    "(\<forall>u v. v \<in> set (get_or_empty fs u) \<longrightarrow> v < u \<and> u < n)"
    using assms(1) by (simp_all add: cond_inv_def dag_ok_def)
  have "cond_inv n fs' rs'"
    unfolding cond_inv_def dag_ok_def
    using old assms(2,3) fs'(2) rs'(2)
    by (auto simp: fs'(3) rs'(3) set_add_props)
  with fs'(1) rs'(1) show ?thesis by blast
qed

lemma addDeps_inv:
  assumes "cond_inv n fs rs" "src < n"
    and "\<forall>dep \<in> set deps. \<forall>v. map_of ntc dep = Some v \<longrightarrow> v \<le> src"
  shows "\<exists>fs' rs'. addDeps ntc src deps (fs, rs) = Some (fs', rs') \<and> cond_inv n fs' rs'"
  using assms
proof (induction deps arbitrary: fs rs)
  case Nil
  then show ?case by simp
next
  case (Cons dep deps)
  show ?case
  proof (cases "map_of ntc dep")
    case None
    with Cons show ?thesis by simp
  next
    case (Some dst)
    show ?thesis
    proof (cases "src = dst")
      case True
      with Some Cons show ?thesis by simp
    next
      case False
      with Cons.prems(3) Some have lt: "dst < src" by force
      from cond_inv_add[OF Cons.prems(1) lt Cons.prems(2)]
      obtain fs1 rs1 where s: "add_to_set_at src dst fs = Some fs1" "add_to_set_at dst src rs = Some rs1"
        "cond_inv n fs1 rs1" by blast
      from Cons.IH[OF s(3) Cons.prems(2)] Cons.prems(3)
      obtain fs' rs' where "addDeps ntc src deps (fs1, rs1) = Some (fs', rs')" "cond_inv n fs' rs'"
        by auto
      with Some False s show ?thesis by simp
    qed
  qed
qed

lemma addEdges_inv:
  assumes "cond_inv n fs rs" "edges_descend es ntc n"
  shows "\<exists>fs' rs'. addEdges ntc es (fs, rs) = Some (fs', rs') \<and> cond_inv n fs' rs'"
  using assms
proof (induction es arbitrary: fs rs)
  case Nil
  then show ?case by simp
next
  case (Cons e es)
  obtain fl deps where e: "e = (fl, deps)" by (cases e)
  have rest: "edges_descend es ntc n" using Cons.prems(2) by (auto simp: edges_descend_def)
  show ?case
  proof (cases "map_of ntc fl")
    case None
    with Cons.IH[OF Cons.prems(1) rest] e show ?thesis by simp
  next
    case (Some src)
    have sn: "src < n" using Some Cons.prems(2) by (auto simp: edges_descend_def)
    have "\<forall>dep \<in> set deps. \<forall>v. map_of ntc dep = Some v \<longrightarrow> v \<le> src"
      using Some Cons.prems(2) e by (fastforce simp: edges_descend_def)
    from addDeps_inv[OF Cons.prems(1) sn this]
    obtain fs1 rs1 where s: "addDeps ntc src deps (fs, rs) = Some (fs1, rs1)" "cond_inv n fs1 rs1"
      by blast
    from Cons.IH[OF s(2) rest] s(1) Some e show ?thesis by simp
  qed
qed

lemma cond_inv_empty: "cond_inv n (map (\<lambda>i. (i, [])) [0..<n]) (map (\<lambda>i. (i, [])) [0..<n])"
proof -
  have "get_or_empty (map (\<lambda>i. (i, [])) [0..<n]) u = ([]::nat list)" for u
    by (simp add: get_or_empty_def map_of_map_restrict restrict_map_def)
  then show ?thesis by (simp add: cond_inv_def dag_ok_def comp_def)
qed

lemma topologicalSort_ignores_order:
  "topologicalSort (dag\<lparr>topologicalOrder := xs\<rparr>) = topologicalSort dag"
proof -
  have "initialInDegree (dag\<lparr>topologicalOrder := xs\<rparr>) = initialInDegree dag"
    by (simp add: initialInDegree_def)
  then show ?thesis by (simp add: topologicalSort_def Let_def)
qed

lemma condenseGraph_ok:
  assumes "edges_descend (forward g) ntc (length comps)"
  shows "\<exists>dag. condenseGraph g comps ntc = Some dag \<and>
               length (nodes dag) = length comps \<and>
               dag_ok (dag_forward dag) (dag_reverse dag) (length comps) \<and>
               topologicalOrder dag = topologicalSort dag"
proof -
  let ?n = "length comps"
  let ?e = "map (\<lambda>i. (i, [])) [0..<?n]"
  from addEdges_inv[OF cond_inv_empty assms]
  obtain fs rs where a: "addEdges ntc (forward g) (?e, ?e) = Some (fs, rs)" "cond_inv ?n fs rs"
    by blast
  let ?dag0 = "\<lparr>nodes = condensedNodes comps, dag_forward = fs, dag_reverse = rs,
                topologicalOrder = []\<rparr>"
  have c: "condenseGraph g comps ntc = Some (?dag0\<lparr>topologicalOrder := topologicalSort ?dag0\<rparr>)"
    using a(1) by (simp add: condenseGraph_def Let_def)
  have "length (nodes ?dag0) = ?n" by (simp add: condensedNodes_def)
  moreover have "dag_ok fs rs ?n" using a(2) by (simp add: cond_inv_def)
  ultimately show ?thesis
    unfolding c
    using topologicalSort_ignores_order[where dag = ?dag0 and xs = "topologicalSort ?dag0"]
    by simp
qed

subsection \<open>Tarjan's algorithm: components come out dependencies first\<close>

definition t_visited :: "tarjan \<Rightarrow> path set" where
  "t_visited st = fst ` set (nodeIndex st)"

definition t_idx :: "tarjan \<Rightarrow> path \<Rightarrow> nat" where
  "t_idx st x = val_of (nodeIndex st) x"

definition t_low :: "tarjan \<Rightarrow> path \<Rightarrow> nat" where
  "t_low st x = val_of (nodeLowlink st) x"

definition successors_in :: "DependencyGraph \<Rightarrow> path \<Rightarrow> path set" where
  "successors_in g a = {b \<in> set (get_or_empty (forward g) a). b \<in> set (files g)}"

text \<open>
  Every successor of a file of a finished component lies in that component or in one
  that was finished before it.
\<close>

definition comps_closed :: "DependencyGraph \<Rightarrow> path list list \<Rightarrow> bool" where
  "comps_closed g cs \<longleftrightarrow>
     (\<forall>i < length cs. \<forall>a \<in> set (cs ! i). \<forall>b \<in> successors_in g a. \<exists>j \<le> i. b \<in> set (cs ! j))"

definition tarjan_inv :: "DependencyGraph \<Rightarrow> tarjan \<Rightarrow> bool" where
  "tarjan_inv g st \<longleftrightarrow>
     distinct (stack st @ concat (found st)) \<and>
     set (stack st) \<union> set (concat (found st)) = t_visited st \<and>
     t_visited st \<subseteq> set (files g) \<and>
     set (onStack st) = set (stack st) \<and>
     (\<forall>y \<in> t_visited st. t_idx st y < indexCounter st) \<and>
     comps_closed g (found st)"

definition edge_bound :: "tarjan \<Rightarrow> path \<Rightarrow> path list \<Rightarrow> path set \<Rightarrow> bool" where
  "edge_bound st x base bs \<longleftrightarrow>
     (\<forall>b \<in> bs. b \<in> t_visited st \<and> (b \<in> set base \<longrightarrow> t_low st x \<le> t_idx st b))"

definition grows :: "tarjan \<Rightarrow> tarjan \<Rightarrow> bool" where
  "grows st st' \<longleftrightarrow>
     (\<exists>more. found st' = found st @ more) \<and> t_visited st \<subseteq> t_visited st' \<and>
     (\<forall>y \<in> t_visited st. t_idx st' y = t_idx st y)"

definition sc_post :: "DependencyGraph \<Rightarrow> path \<Rightarrow> tarjan \<Rightarrow> tarjan \<Rightarrow> bool" where
  "sc_post g x st st' \<longleftrightarrow>
     tarjan_inv g st' \<and> grows st st' \<and> x \<in> t_visited st' \<and>
     (\<forall>y \<in> t_visited st. t_low st' y = t_low st y) \<and>
     (\<exists>new. stack st' = new @ stack st \<and>
            (\<forall>a \<in> set new. edge_bound st' x (stack st) (successors_in g a)))"

definition vs_post ::
  "DependencyGraph \<Rightarrow> path \<Rightarrow> path list \<Rightarrow> path list \<Rightarrow> tarjan \<Rightarrow> tarjan \<Rightarrow> bool" where
  "vs_post g x base ss st st' \<longleftrightarrow>
     tarjan_inv g st' \<and> grows st st' \<and>
     (\<forall>y \<in> t_visited st. y \<noteq> x \<longrightarrow> t_low st' y = t_low st y) \<and>
     t_low st' x \<le> t_low st x \<and>
     (\<exists>mid'. stack st' = mid' @ x # base \<and>
             (\<forall>a \<in> set mid'. edge_bound st' x base (successors_in g a))) \<and>
     edge_bound st' x base {b \<in> set ss. b \<in> set (files g)}"

lemma val_of_update: "val_of (AList.update k v m) k' = (if k' = k then v else val_of m k')"
  by (simp add: val_of_def update_conv')

lemma grows_refl: "grows st st"
  by (simp add: grows_def)

lemma grows_trans:
  assumes "grows a b" "grows b c"
  shows "grows a c"
proof -
  from assms obtain m1 m2 where "found b = found a @ m1" "found c = found b @ m2"
    by (auto simp: grows_def)
  then have "found c = found a @ (m1 @ m2)" by simp
  moreover have "t_visited a \<subseteq> t_visited c" using assms by (auto simp: grows_def)
  moreover have "\<forall>y \<in> t_visited a. t_idx c y = t_idx a y"
    using assms by (auto simp: grows_def)
  ultimately show ?thesis unfolding grows_def by blast
qed

lemma edge_bound_transport:
  assumes "edge_bound st x base bs" "grows st st'" "t_low st' x \<le> t_low st x"
  shows "edge_bound st' x base bs"
  unfolding edge_bound_def
proof (intro ballI conjI impI)
  fix b assume b: "b \<in> bs"
  with assms(1) have v: "b \<in> t_visited st" by (simp add: edge_bound_def)
  with assms(2) show "b \<in> t_visited st'" by (auto simp: grows_def)
  assume "b \<in> set base"
  with assms(1) b have "t_low st x \<le> t_idx st b" by (simp add: edge_bound_def)
  moreover have "t_idx st' b = t_idx st b" using assms(2) v by (simp add: grows_def)
  ultimately show "t_low st' x \<le> t_idx st' b" using assms(3) by simp
qed

lemma enter_fields:
  "t_visited (enter x st) = insert x (t_visited st)"
  "t_idx (enter x st) y = (if y = x then indexCounter st else t_idx st y)"
  "t_low (enter x st) y = (if y = x then indexCounter st else t_low st y)"
  "stack (enter x st) = x # stack st"
  "set (onStack (enter x st)) = insert x (set (onStack st))"
  "found (enter x st) = found st"
  "indexCounter (enter x st) = indexCounter st + 1"
  by (auto simp: enter_def t_visited_def t_idx_def t_low_def val_of_update dom_update set_add_def)

lemma lower_fields:
  "t_visited (lower x v st) = t_visited st"
  "t_idx (lower x v st) y = t_idx st y"
  "t_low (lower x v st) y = (if y = x then min (t_low st x) v else t_low st y)"
  "stack (lower x v st) = stack st"
  "onStack (lower x v st) = onStack st"
  "found (lower x v st) = found st"
  "indexCounter (lower x v st) = indexCounter st"
  by (auto simp: lower_def t_visited_def t_idx_def t_low_def val_of_update)

lemma tarjan_inv_lower: "tarjan_inv g (lower x v st) = tarjan_inv g st"
  by (simp add: tarjan_inv_def lower_fields)

lemma grows_lower: "grows st (lower x v st)"
  by (simp add: grows_def lower_fields)

lemma tarjan_inv_enter:
  assumes "tarjan_inv g st" "x \<in> set (files g)" "x \<notin> t_visited st"
  shows "tarjan_inv g (enter x st)"
proof -
  from assms(1,3) have nx: "x \<notin> set (stack st)" "x \<notin> set (concat (found st))"
    by (auto simp: tarjan_inv_def)
  have "\<forall>y \<in> insert x (t_visited st). t_idx (enter x st) y < indexCounter st + 1"
    using assms(1) by (auto simp: enter_fields tarjan_inv_def less_Suc_eq)
  with assms nx show ?thesis
    unfolding tarjan_inv_def enter_fields
    by (auto simp: tarjan_inv_def)
qed

lemma popComponent_split:
  "x \<notin> set mid \<Longrightarrow>
     \<exists>onSt'. popComponent x (mid @ x # base) onSt acc = Some (acc @ mid @ [x], base, onSt') \<and>
             set onSt' = set onSt - set (mid @ [x])"
proof (induction mid arbitrary: onSt acc)
  case Nil
  then show ?case by (auto simp: Let_def)
next
  case (Cons w mid)
  then have "w \<noteq> x" "x \<notin> set mid" by auto
  from Cons.IH[OF this(2), of "removeAll w onSt" "acc @ [w]"]
  obtain onSt' where "popComponent x (mid @ x # base) (removeAll w onSt) (acc @ [w])
                        = Some ((acc @ [w]) @ mid @ [x], base, onSt')"
    "set onSt' = set (removeAll w onSt) - set (mid @ [x])" by blast
  then show ?case using \<open>w \<noteq> x\<close> by (auto simp: Let_def)
qed

lemma vs_post_step:
  assumes post: "vs_post g x base ss st1 st'"
    and g1: "grows st st1"
    and l1: "\<forall>y \<in> t_visited st. y \<noteq> x \<longrightarrow> t_low st1 y = t_low st y"
    and lx: "t_low st1 x \<le> t_low st x"
    and es: "s \<in> set (files g) \<longrightarrow> edge_bound st1 x base {s}"
  shows "vs_post g x base (s # ss) st st'"
proof -
  from post have inv: "tarjan_inv g st'" and g2: "grows st1 st'"
    and l2: "\<forall>y \<in> t_visited st1. y \<noteq> x \<longrightarrow> t_low st' y = t_low st1 y"
    and lx2: "t_low st' x \<le> t_low st1 x"
    and mid: "\<exists>mid'. stack st' = mid' @ x # base \<and>
                (\<forall>a \<in> set mid'. edge_bound st' x base (successors_in g a))"
    and ess: "edge_bound st' x base {b \<in> set ss. b \<in> set (files g)}"
    by (simp_all add: vs_post_def)
  have sub: "t_visited st \<subseteq> t_visited st1" using g1 by (simp add: grows_def)
  have "\<forall>y \<in> t_visited st. y \<noteq> x \<longrightarrow> t_low st' y = t_low st y"
    using l1 l2 sub by auto
  moreover have "t_low st' x \<le> t_low st x" using lx lx2 by simp
  moreover have "edge_bound st' x base {b \<in> set (s # ss). b \<in> set (files g)}"
  proof (cases "s \<in> set (files g)")
    case True
    with es have "edge_bound st1 x base {s}" by simp
    from edge_bound_transport[OF this g2 lx2] ess show ?thesis
      by (auto simp: edge_bound_def)
  next
    case False
    with ess show ?thesis by (auto simp: edge_bound_def)
  qed
  ultimately show ?thesis
    unfolding vs_post_def using inv grows_trans[OF g1 g2] mid by blast
qed

lemma card_unvisited_mono:
  assumes "t_visited st \<subseteq> t_visited st'"
  shows "card (set (files g) - t_visited st') \<le> card (set (files g) - t_visited st)"
  using assms by (intro card_mono) auto

lemma visitSuccessors_spec:
  assumes sc: "\<And>s st. tarjan_inv g st \<Longrightarrow> s \<in> set (files g) \<Longrightarrow> s \<notin> t_visited st \<Longrightarrow>
                 card (set (files g) - t_visited st) \<le> n \<Longrightarrow>
                 \<exists>st'. strongConnect n g s st = Some st' \<and> sc_post g s st st'"
  shows "tarjan_inv g st \<Longrightarrow> stack st = mid @ x # base \<Longrightarrow>
         (\<forall>a \<in> set mid. edge_bound st x base (successors_in g a)) \<Longrightarrow>
         card (set (files g) - t_visited st) \<le> n \<Longrightarrow>
         \<exists>st'. visitSuccessors n g x ss st = Some st' \<and> vs_post g x base ss st st'"
proof (induction ss arbitrary: st mid)
  case Nil
  then show ?case by (auto simp: vs_post_def grows_refl edge_bound_def)
next
  case (Cons s ss)
  note inv = Cons.prems(1) and stk = Cons.prems(2) and em = Cons.prems(3) and cardn = Cons.prems(4)
  have xv: "x \<in> t_visited st" using inv stk by (auto simp: tarjan_inv_def)
  have basev: "set base \<subseteq> set (stack st)" using stk by auto
  have cont: "\<exists>st'. visitSuccessors n g x ss st1 = Some st' \<and> vs_post g x base (s # ss) st st'"
    if a: "tarjan_inv g st1" "stack st1 = mid1 @ x # base"
      "\<forall>a \<in> set mid1. edge_bound st1 x base (successors_in g a)"
      and b: "grows st st1" "\<forall>y \<in> t_visited st. y \<noteq> x \<longrightarrow> t_low st1 y = t_low st y"
      "t_low st1 x \<le> t_low st x" "s \<in> set (files g) \<longrightarrow> edge_bound st1 x base {s}"
    for st1 mid1
  proof -
    have "card (set (files g) - t_visited st1) \<le> n"
      using card_unvisited_mono[of st st1 g] b(1) cardn by (simp add: grows_def)
    from Cons.IH[OF a this] obtain st' where
      r: "visitSuccessors n g x ss st1 = Some st'" "vs_post g x base ss st1 st'" by blast
    from vs_post_step[OF r(2) b] r(1) show ?thesis by blast
  qed
  show ?case
  proof (cases "s \<in> set (files g)")
    case False
    from cont[OF inv stk em grows_refl] False show ?thesis by simp
  next
    case sf: True
    show ?thesis
    proof (cases "has_key (nodeIndex st) s")
      case False
      then have nv: "s \<notin> t_visited st" by (simp add: has_key_iff t_visited_def)
      from sc[OF inv sf nv cardn] obtain st2 where
        r2: "strongConnect n g s st = Some st2" and p2: "sc_post g s st st2" by blast
      from p2 obtain new where
        inv2: "tarjan_inv g st2" and g2: "grows st st2" and sv: "s \<in> t_visited st2"
        and l2: "\<forall>y \<in> t_visited st. t_low st2 y = t_low st y"
        and stk2: "stack st2 = new @ stack st"
        and en: "\<forall>a \<in> set new. edge_bound st2 s (stack st) (successors_in g a)"
        by (auto simp: sc_post_def)
      let ?st1 = "lower x (t_low st2 s) st2"
      have lowx: "t_low ?st1 x = min (t_low st x) (t_low st2 s)"
        using l2 xv by (simp add: lower_fields)
      have g1: "grows st ?st1" using grows_trans[OF g2 grows_lower] .
      have lx: "t_low ?st1 x \<le> t_low st x" using lowx by simp
      have e1: "\<forall>a \<in> set (new @ mid). edge_bound ?st1 x base (successors_in g a)"
      proof
        fix a assume "a \<in> set (new @ mid)"
        then consider "a \<in> set new" | "a \<in> set mid" by auto
        then show "edge_bound ?st1 x base (successors_in g a)"
        proof cases
          case 1
          with en have e: "edge_bound st2 s (stack st) (successors_in g a)" by simp
          show ?thesis
            unfolding edge_bound_def
          proof (intro ballI conjI impI)
            fix b assume b: "b \<in> successors_in g a"
            with e show "b \<in> t_visited ?st1" by (simp add: edge_bound_def lower_fields)
            assume "b \<in> set base"
            with basev b e have "t_low st2 s \<le> t_idx st2 b" by (auto simp: edge_bound_def)
            then show "t_low ?st1 x \<le> t_idx ?st1 b" using lowx by (simp add: lower_fields)
          qed
        next
          case 2
          with em have "edge_bound st x base (successors_in g a)" by simp
          from edge_bound_transport[OF this g1 lx] show ?thesis .
        qed
      qed
      have "\<forall>y \<in> t_visited st. y \<noteq> x \<longrightarrow> t_low ?st1 y = t_low st y"
        using l2 by (simp add: lower_fields)
      moreover have "s \<in> set (files g) \<longrightarrow> edge_bound ?st1 x base {s}"
        using sv nv basev inv by (auto simp: edge_bound_def lower_fields tarjan_inv_def)
      moreover have "stack ?st1 = (new @ mid) @ x # base"
        using stk2 stk by (simp add: lower_fields)
      moreover have "tarjan_inv g ?st1" using inv2 by (simp add: tarjan_inv_lower)
      ultimately have "\<exists>st'. visitSuccessors n g x ss ?st1 = Some st' \<and> vs_post g x base (s # ss) st st'"
        using cont[of ?st1 "new @ mid"] e1 g1 lx by blast
      then show ?thesis using sf False r2 by (simp add: t_low_def)
    next
      case hk: True
      then have sv: "s \<in> t_visited st" by (simp add: has_key_iff t_visited_def)
      show ?thesis
      proof (cases "s \<in> set (onStack st)")
        case True
        let ?st1 = "lower x (t_idx st s) st"
        have lowx: "t_low ?st1 x = min (t_low st x) (t_idx st s)" by (simp add: lower_fields)
        have g1: "grows st ?st1" by (rule grows_lower)
        have lx: "t_low ?st1 x \<le> t_low st x" using lowx by simp
        have e1: "\<forall>a \<in> set mid. edge_bound ?st1 x base (successors_in g a)"
          using em edge_bound_transport[OF _ g1 lx] by blast
        have "\<forall>y \<in> t_visited st. y \<noteq> x \<longrightarrow> t_low ?st1 y = t_low st y"
          by (simp add: lower_fields)
        moreover have "s \<in> set (files g) \<longrightarrow> edge_bound ?st1 x base {s}"
          using sv lowx by (auto simp: edge_bound_def lower_fields)
        moreover have "stack ?st1 = mid @ x # base" using stk by (simp add: lower_fields)
        moreover have "tarjan_inv g ?st1" using inv by (simp add: tarjan_inv_lower)
        ultimately have "\<exists>st'. visitSuccessors n g x ss ?st1 = Some st' \<and> vs_post g x base (s # ss) st st'"
          using cont[of ?st1 mid] e1 g1 lx by blast
        then show ?thesis using sf hk True by (simp add: t_idx_def)
      next
        case False
        then have "s \<notin> set base" using basev inv by (auto simp: tarjan_inv_def)
        then have "s \<in> set (files g) \<longrightarrow> edge_bound st x base {s}"
          using sv by (simp add: edge_bound_def)
        from cont[OF inv stk em grows_refl _ _ this] sf hk False show ?thesis by simp
      qed
    qed
  qed
qed

lemma comps_closed_snoc:
  assumes "comps_closed g cs"
    and "\<forall>a \<in> set c. \<forall>b \<in> successors_in g a. b \<in> set c \<or> b \<in> set (concat cs)"
  shows "comps_closed g (cs @ [c])"
  unfolding comps_closed_def
proof (intro allI impI ballI)
  fix i a b
  assume i: "i < length (cs @ [c])" and a: "a \<in> set ((cs @ [c]) ! i)" and b: "b \<in> successors_in g a"
  show "\<exists>j \<le> i. b \<in> set ((cs @ [c]) ! j)"
  proof (cases "i < length cs")
    case True
    with a have "a \<in> set (cs ! i)" by (simp add: nth_append)
    with assms(1) True b obtain j where "j \<le> i" "b \<in> set (cs ! j)"
      unfolding comps_closed_def by blast
    with True show ?thesis by (intro exI[of _ j]) (simp add: nth_append)
  next
    case False
    with i have il: "i = length cs" by simp
    with a have "a \<in> set c" by simp
    with assms(2) b consider "b \<in> set c" | "b \<in> set (concat cs)" by blast
    then show ?thesis
    proof cases
      case 1
      then show ?thesis using il by (intro exI[of _ i]) simp
    next
      case 2
      then obtain c' where "c' \<in> set cs" "b \<in> set c'" by auto
      then obtain j where "j < length cs" "cs ! j = c'" by (auto simp: in_set_conv_nth)
      with \<open>b \<in> set c'\<close> il show ?thesis by (intro exI[of _ j]) (simp add: nth_append)
    qed
  qed
qed

lemma strongConnect_step:
  assumes vs: "\<And>x ss st mid base.
                 tarjan_inv g st \<Longrightarrow> stack st = mid @ x # base \<Longrightarrow>
                 (\<forall>a \<in> set mid. edge_bound st x base (successors_in g a)) \<Longrightarrow>
                 card (set (files g) - t_visited st) \<le> n \<Longrightarrow>
                 \<exists>st'. visitSuccessors n g x ss st = Some st' \<and> vs_post g x base ss st st'"
    and inv: "tarjan_inv g st" and xf: "x \<in> set (files g)" and xn: "x \<notin> t_visited st"
    and cardn: "card (set (files g) - t_visited st) \<le> Suc n"
  shows "\<exists>st'. strongConnect (Suc n) g x st = Some st' \<and> sc_post g x st st'"
proof -
  let ?st0 = "enter x st"
  let ?ss = "get_or_empty (forward g) x"
  let ?base = "stack st"
  have inv0: "tarjan_inv g ?st0" by (rule tarjan_inv_enter[OF inv xf xn])
  have stk0: "stack ?st0 = [] @ x # ?base" by (simp add: enter_fields)
  have "card (set (files g) - insert x (t_visited st)) < card (set (files g) - t_visited st)"
    using card_diff_insert_less[of "set (files g)" x "t_visited st"] xf xn by simp
  then have card0: "card (set (files g) - t_visited ?st0) \<le> n"
    using cardn by (simp add: enter_fields)
  from vs[OF inv0 stk0 _ card0, of ?ss] obtain st2 where
    run: "visitSuccessors n g x ?ss ?st0 = Some st2" and post: "vs_post g x ?base ?ss ?st0 st2"
    by auto
  from post obtain mid' where
    inv2: "tarjan_inv g st2" and g02: "grows ?st0 st2"
    and l02: "\<forall>y \<in> t_visited ?st0. y \<noteq> x \<longrightarrow> t_low st2 y = t_low ?st0 y"
    and stk2: "stack st2 = mid' @ x # ?base"
    and em: "\<forall>a \<in> set mid'. edge_bound st2 x ?base (successors_in g a)"
    and ex: "edge_bound st2 x ?base {b \<in> set ?ss. b \<in> set (files g)}"
    by (auto simp: vs_post_def)
  have g0: "grows st ?st0" using xn by (auto simp: grows_def enter_fields)
  have g2: "grows st st2" by (rule grows_trans[OF g0 g02])
  have xv2: "x \<in> t_visited st2" using g02 by (auto simp: grows_def enter_fields)
  have idx_x: "t_idx st2 x = indexCounter st"
    using g02 by (auto simp: grows_def enter_fields)
  have idx_base: "t_idx st2 b < indexCounter st" if "b \<in> set ?base" for b
  proof -
    from that inv have bv: "b \<in> t_visited st" by (auto simp: tarjan_inv_def)
    with g2 have "t_idx st2 b = t_idx st b" by (simp add: grows_def)
    with inv bv show ?thesis by (simp add: tarjan_inv_def)
  qed
  have lows: "\<forall>y \<in> t_visited st. t_low st2 y = t_low st y"
    using l02 xn by (auto simp: enter_fields)
  have enew: "\<forall>a \<in> set (mid' @ [x]). edge_bound st2 x ?base (successors_in g a)"
    using em ex by (auto simp: successors_in_def)
  show ?thesis
  proof (cases "t_low st2 x = t_idx st2 x")
    case False
    then have "finish x st2 = Some st2" by (simp add: finish_def t_low_def t_idx_def)
    then have r: "strongConnect (Suc n) g x st = Some st2" using run by simp
    have "stack st2 = (mid' @ [x]) @ ?base" using stk2 by simp
    with enew have "\<exists>new. stack st2 = new @ ?base \<and>
                     (\<forall>a \<in> set new. edge_bound st2 x ?base (successors_in g a))" by blast
    then have "sc_post g x st st2"
      unfolding sc_post_def using inv2 g2 xv2 lows by blast
    with r show ?thesis by blast
  next
    case True
    let ?c = "mid' @ [x]"
    have d2: "distinct (stack st2 @ concat (found st2))" using inv2 by (simp add: tarjan_inv_def)
    then have xm: "x \<notin> set mid'" using stk2 by auto
    from popComponent_split[OF xm, of ?base "onStack st2" "[]"] obtain onSt' where
      pop: "popComponent x (stack st2) (onStack st2) [] = Some (?c, ?base, onSt')"
      and os: "set onSt' = set (onStack st2) - set ?c"
      using stk2 by auto
    let ?st' = "st2\<lparr>stack := ?base, onStack := onSt', found := found st2 @ [?c]\<rparr>"
    have fin: "finish x st2 = Some ?st'"
      using True pop by (simp add: finish_def t_low_def t_idx_def)
    have r: "strongConnect (Suc n) g x st = Some ?st'" using run fin by simp
    have same: "t_visited ?st' = t_visited st2" "\<And>y. t_idx ?st' y = t_idx st2 y"
      "\<And>y. t_low ?st' y = t_low st2 y"
      by (simp_all add: t_visited_def t_idx_def t_low_def)
    have succ_in: "b \<in> set ?c \<or> b \<in> set (concat (found st2))"
      if a: "a \<in> set ?c" and b: "b \<in> successors_in g a" for a b
    proof -
      from enew a b have bv: "b \<in> t_visited st2"
        and bb: "b \<in> set ?base \<Longrightarrow> t_low st2 x \<le> t_idx st2 b"
        by (auto simp: edge_bound_def)
      have "b \<notin> set ?base"
      proof
        assume "b \<in> set ?base"
        with bb idx_base[of b] True idx_x show False by simp
      qed
      moreover from bv inv2 have "b \<in> set (stack st2) \<union> set (concat (found st2))"
        by (simp add: tarjan_inv_def)
      ultimately show ?thesis using stk2 by auto
    qed
    have closed': "comps_closed g (found st2 @ [?c])"
    proof (rule comps_closed_snoc)
      show "comps_closed g (found st2)" using inv2 by (simp add: tarjan_inv_def)
      show "\<forall>a \<in> set ?c. \<forall>b \<in> successors_in g a. b \<in> set ?c \<or> b \<in> set (concat (found st2))"
        using succ_in by blast
    qed
    have inv': "tarjan_inv g ?st'"
      unfolding tarjan_inv_def same
    proof (intro conjI)
      show "distinct (stack ?st' @ concat (found ?st'))" using d2 stk2 by auto
      show "set (stack ?st') \<union> set (concat (found ?st')) = t_visited st2"
        using inv2 stk2 by (auto simp: tarjan_inv_def)
      show "t_visited st2 \<subseteq> set (files g)" using inv2 by (simp add: tarjan_inv_def)
      show "set (onStack ?st') = set (stack ?st')"
        using os inv2 stk2 d2 by (auto simp: tarjan_inv_def)
      show "\<forall>y \<in> t_visited st2. t_idx st2 y < indexCounter ?st'"
        using inv2 by (simp add: tarjan_inv_def)
      show "comps_closed g (found ?st')" using closed' by simp
    qed
    obtain more where more: "found st2 = found st @ more" using g2 by (auto simp: grows_def)
    have g': "grows st ?st'"
      unfolding grows_def same using g2 more by (auto simp: grows_def)
    have "sc_post g x st ?st'"
      unfolding sc_post_def same using inv' g' xv2 lows by simp
    with r show ?thesis by blast
  qed
qed

lemma strongConnect_spec:
  "tarjan_inv g st \<Longrightarrow> x \<in> set (files g) \<Longrightarrow> x \<notin> t_visited st \<Longrightarrow>
   card (set (files g) - t_visited st) \<le> n \<Longrightarrow>
   \<exists>st'. strongConnect n g x st = Some st' \<and> sc_post g x st st'"
proof (induction n arbitrary: x st)
  case 0
  then have "x \<in> set (files g) - t_visited st" by simp
  then have "0 < card (set (files g) - t_visited st)"
    by (metis List.finite_set card_gt_0_iff empty_iff finite_Diff)
  with 0 show ?case by auto
next
  case (Suc n)
  show ?case
  proof (rule strongConnect_step[OF _ Suc.prems])
    fix y ss st1 mid base
    assume "tarjan_inv g st1" "stack st1 = mid @ y # base"
      "\<forall>a \<in> set mid. edge_bound st1 y base (successors_in g a)"
      "card (set (files g) - t_visited st1) \<le> n"
    then show "\<exists>st'. visitSuccessors n g y ss st1 = Some st' \<and> vs_post g y base ss st1 st'"
      using visitSuccessors_spec[of g n st1 mid y base ss] Suc.IH by blast
  qed
qed

lemma visitAll_spec:
  "tarjan_inv g st \<Longrightarrow> set fs \<subseteq> set (files g) \<Longrightarrow>
   card (set (files g) - t_visited st) \<le> n \<Longrightarrow>
   \<exists>st'. visitAll n g fs st = Some st' \<and> tarjan_inv g st' \<and> t_visited st \<subseteq> t_visited st'"
proof (induction fs arbitrary: st)
  case Nil
  then show ?case by simp
next
  case (Cons f fs)
  show ?case
  proof (cases "has_key (nodeIndex st) f")
    case True
    with Cons show ?thesis by simp
  next
    case False
    then have nv: "f \<notin> t_visited st" by (simp add: has_key_iff t_visited_def)
    have ff: "f \<in> set (files g)" using Cons.prems(2) by simp
    from strongConnect_spec[OF Cons.prems(1) ff nv Cons.prems(3)] obtain st1 where
      r: "strongConnect n g f st = Some st1" and p: "sc_post g f st st1" by blast
    from p have inv1: "tarjan_inv g st1" and sub: "t_visited st \<subseteq> t_visited st1"
      by (simp_all add: sc_post_def grows_def)
    have "card (set (files g) - t_visited st1) \<le> n"
      using card_unvisited_mono[OF sub, of g] Cons.prems(3) by simp
    from Cons.IH[OF inv1 _ this] Cons.prems(2) obtain st' where
      "visitAll n g fs st1 = Some st'" "tarjan_inv g st'" "t_visited st1 \<subseteq> t_visited st'"
      by auto
    with r False sub show ?thesis by auto
  qed
qed

lemma tarjan_inv_empty: "tarjan_inv g emptyTarjan"
  by (simp add: tarjan_inv_def emptyTarjan_def t_visited_def comps_closed_def)

lemma map_of_fold_update:
  "map_of (fold (\<lambda>fl. AList.update fl i) c m) a = (if a \<in> set c then Some i else map_of m a)"
  by (induction c arbitrary: m) (auto simp: update_conv')

lemma nodeToComponent_aux:
  "map_of (fold (\<lambda>(i, component) m. fold (\<lambda>fl. AList.update fl i) component m)
                (enumerate k cs) m) a =
     (if a \<in> set (concat cs)
      then Some (k + (GREATEST i. i < length cs \<and> a \<in> set (cs ! i)))
      else map_of m a)"
proof (induction cs arbitrary: k m rule: rev_induct)
  case Nil
  then show ?case by simp
next
  case (snoc c cs)
  have en: "enumerate k (cs @ [c]) = enumerate k cs @ [(k + length cs, c)]"
    by (simp add: enumerate_append_eq)
  show ?case
  proof (cases "a \<in> set c")
    case True
    have "(GREATEST i. i < length (cs @ [c]) \<and> a \<in> set ((cs @ [c]) ! i)) = length cs"
      using True by (intro Greatest_equality) auto
    with True show ?thesis by (simp add: en map_of_fold_update)
  next
    case False
    have "(i < length (cs @ [c]) \<and> a \<in> set ((cs @ [c]) ! i)) = (i < length cs \<and> a \<in> set (cs ! i))" for i
      using False by (auto simp: nth_append less_Suc_eq)
    with False snoc show ?thesis by (simp add: en map_of_fold_update)
  qed
qed

lemma nodeToComponent_Some:
  assumes "map_of (buildNodeToComponent cs) a = Some i"
  shows "i < length cs \<and> a \<in> set (cs ! i)"
proof -
  have m: "map_of (buildNodeToComponent cs) a =
     (if a \<in> set (concat cs) then Some (0 + (GREATEST i. i < length cs \<and> a \<in> set (cs ! i))) else None)"
    unfolding buildNodeToComponent_def using nodeToComponent_aux[of 0 cs "[]" a] by simp
  with assms have ain: "a \<in> set (concat cs)" by (auto split: if_splits)
  then obtain c where "c \<in> set cs" "a \<in> set c" by auto
  then obtain j where j: "j < length cs \<and> a \<in> set (cs ! j)" by (auto simp: in_set_conv_nth)
  have "(GREATEST i. i < length cs \<and> a \<in> set (cs ! i)) < length cs \<and>
        a \<in> set (cs ! (GREATEST i. i < length cs \<and> a \<in> set (cs ! i)))"
    by (rule GreatestI_nat[where P = "\<lambda>i. i < length cs \<and> a \<in> set (cs ! i)" and b = "length cs", OF j]) simp
  with m assms ain show ?thesis by simp
qed

lemma distinct_concat_unique:
  assumes "distinct (concat cs)" "i < length cs" "j < length cs" "a \<in> set (cs ! i)" "a \<in> set (cs ! j)"
  shows "i = j"
  using assms
proof (induction cs arbitrary: i j)
  case Nil
  then show ?case by simp
next
  case (Cons c cs)
  show ?case
  proof (cases i)
    case 0
    show ?thesis
    proof (cases j)
      case 0
      with \<open>i = 0\<close> show ?thesis by simp
    next
      case (Suc j')
      with Cons.prems 0 have "a \<in> set c" "a \<in> set (concat cs)" by auto
      with Cons.prems(1) show ?thesis by auto
    qed
  next
    case (Suc i')
    show ?thesis
    proof (cases j)
      case 0
      with Cons.prems Suc have "a \<in> set c" "a \<in> set (concat cs)" by auto
      with Cons.prems(1) show ?thesis by auto
    next
      case (Suc j')
      with Cons.prems \<open>i = Suc i'\<close> Cons.IH[of i' j'] show ?thesis by auto
    qed
  qed
qed

lemma edges_descend_tarjan:
  assumes inv: "tarjan_inv g st" and dk: "distinct (map fst (forward g))"
  shows "edges_descend (forward g) (buildNodeToComponent (found st)) (length (found st))"
  unfolding edges_descend_def
proof (intro conjI allI impI ballI, goal_cases)
  case (1 f i)
  then show ?case using nodeToComponent_Some by blast
next
  case (2 e)
  obtain fl deps where e: "e = (fl, deps)" by (cases e)
  show ?case
    unfolding e
  proof (clarify)
    fix dep u v
    assume dep: "dep \<in> set deps"
      and u: "map_of (buildNodeToComponent (found st)) fl = Some u"
      and v: "map_of (buildNodeToComponent (found st)) dep = Some v"
    let ?cs = "found st"
    from nodeToComponent_Some[OF u] have ui: "u < length ?cs" "fl \<in> set (?cs ! u)" by auto
    from nodeToComponent_Some[OF v] have vi: "v < length ?cs" "dep \<in> set (?cs ! v)" by auto
    have dc: "distinct (concat ?cs)" using inv by (simp add: tarjan_inv_def)
    have "?cs ! v \<in> set ?cs" using vi(1) by (rule nth_mem)
    with vi(2) have "dep \<in> set (concat ?cs)" by auto
    then have depf: "dep \<in> set (files g)" using inv by (auto simp: tarjan_inv_def)
    have "map_of (forward g) fl = Some deps" using 2 e dk by simp
    then have "dep \<in> successors_in g fl"
      using dep depf by (simp add: successors_in_def get_or_empty_def)
    with inv ui obtain j where j: "j \<le> u" "dep \<in> set (?cs ! j)"
      unfolding tarjan_inv_def comps_closed_def by blast
    then have "j < length ?cs" using ui by simp
    from distinct_concat_unique[OF dc this vi(1) j(2) vi(2)] j(1) show "v \<le> u" by simp
  qed
qed

lemma computeSCC_returns:
  assumes "distinct (map fst (forward g))"
  shows "\<exists>s. computeSCC g = Some s \<and>
            length (nodes (condensed s)) = length (components s) \<and>
            dag_ok (dag_forward (condensed s)) (dag_reverse (condensed s)) (length (components s)) \<and>
            topologicalOrder (condensed s) = topologicalSort (condensed s)"
proof (cases "files g = []")
  case True
  then show ?thesis
    by (simp add: computeSCC_def dag_ok_def get_or_empty_def topologicalSort_def)
next
  case False
  have "card (set (files g) - t_visited emptyTarjan) \<le> Suc (length (files g))"
    by (metis Diff_subset List.finite_set card_length card_mono le_SucI le_trans)
  from visitAll_spec[OF tarjan_inv_empty subset_refl this] obtain st where
    run: "visitAll (Suc (length (files g))) g (files g) emptyTarjan = Some st"
    and inv: "tarjan_inv g st" by blast
  let ?cs = "found st"
  let ?ntc = "buildNodeToComponent ?cs"
  from condenseGraph_ok[OF edges_descend_tarjan[OF inv assms]] obtain dag where
    dag: "condenseGraph g ?cs ?ntc = Some dag" "length (nodes dag) = length ?cs"
    "dag_ok (dag_forward dag) (dag_reverse dag) (length ?cs)"
    "topologicalOrder dag = topologicalSort dag" by blast
  have "computeSCC g = Some \<lparr>components = ?cs, nodeToComponent = ?ntc, condensed = dag\<rparr>"
    using False run dag(1) by (simp add: computeSCC_def Let_def)
  with dag show ?thesis by simp
qed

definition precedes :: "nat \<Rightarrow> nat \<Rightarrow> nat list \<Rightarrow> bool" where
  "precedes v u order \<longleftrightarrow> (\<exists>xs ys zs. order = xs @ v # ys @ u # zs)"

lemma topo_precedes:
  assumes "topo fw order" "u \<in> set order" "v \<in> set (get_or_empty fw u)"
  shows "precedes v u order"
proof -
  from assms(2) obtain i where i: "i < length order" "order ! i = u"
    by (auto simp: in_set_conv_nth)
  with assms(1,3) have "v \<in> set (take i order)" unfolding topo_def by blast
  then obtain xs ys where t: "take i order = xs @ v # ys" by (auto simp: in_set_conv_decomp)
  have "order = take i order @ drop i order" by simp
  also have "drop i order = u # drop (Suc i) order"
    using Cons_nth_drop_Suc[OF i(1)] i(2) by simp
  finally have "order = xs @ v # ys @ u # drop (Suc i) order" using t by simp
  then show ?thesis unfolding precedes_def by blast
qed

text \<open>
  C6. For every graph (its \<open>forward\<close> map having each key once, as a \<open>Map\<close> has),
  \<open>computeSCC\<close> returns, and the topological order it stores in the condensed DAG is
  what \<open>topologicalSort\<close> computes on that DAG: a list without repetition of exactly the
  SCC indices \<open>0, \<dots>, n - 1\<close>, in which for every condensed forward edge \<open>u \<rightarrow> v\<close>
  (\<open>u\<close> imports \<open>v\<close>) the index \<open>v\<close> stands before \<open>u\<close>.
\<close>

theorem topological_order_dependencies_first:
  assumes "distinct (map fst (forward g))"
  shows "\<exists>s. computeSCC g = Some s \<and>
            topologicalOrder (condensed s) = topologicalSort (condensed s) \<and>
            distinct (topologicalOrder (condensed s)) \<and>
            set (topologicalOrder (condensed s)) = {0..<length (components s)} \<and>
            length (topologicalOrder (condensed s)) = length (components s) \<and>
            (\<forall>u v. v \<in> set (get_or_empty (dag_forward (condensed s)) u) \<longrightarrow>
                   precedes v u (topologicalOrder (condensed s)))"
proof -
  from computeSCC_returns[OF assms] obtain s where
    s: "computeSCC g = Some s" "length (nodes (condensed s)) = length (components s)"
    "dag_ok (dag_forward (condensed s)) (dag_reverse (condensed s)) (length (components s))"
    "topologicalOrder (condensed s) = topologicalSort (condensed s)" by blast
  let ?dag = "condensed s"
  let ?order = "topologicalSort ?dag"
  from topologicalSort_correct[of ?dag] s(2,3)
  have t: "distinct ?order" "set ?order = {0..<length (components s)}" "topo (dag_forward ?dag) ?order"
    by simp_all
  have len: "length ?order = length (components s)"
    using t(1,2) by (metis card_atLeastLessThan diff_zero distinct_card)
  have "precedes v u ?order" if e: "v \<in> set (get_or_empty (dag_forward ?dag) u)" for u v
  proof -
    from e s(3) have "u < length (components s)" by (auto simp: dag_ok_def)
    then have "u \<in> set ?order" using t(2) by simp
    from topo_precedes[OF t(3) this e] show ?thesis .
  qed
  with s(1,4) t len show ?thesis by auto
qed

definition chainBatch :: sourceBatch where
  "chainBatch = \<lparr>sourceFiles = [''a'', ''b'', ''c''],
                  importsOf = (\<lambda>f. if f = ''a'' then [''b''] else if f = ''b'' then [''c''] else [])\<rparr>"

definition builtChain :: DependencyGraph where
  "builtChain = fst (buildGraph [chainBatch] None (createMemoCache 500))"

theorem topological_order_dependencies_first_witness:
  "distinct (map fst (forward builtChain)) \<and>
   map_option (\<lambda>s. (components s, dag_forward (condensed s), topologicalOrder (condensed s)))
     (computeSCC builtChain)
     = Some ([[''c''], [''b''], [''a'']], [(0, []), (1, [0]), (2, [1])], [0, 1, 2]) \<and>
   precedes 0 1 [0, 1, 2] \<and> precedes 1 2 [0, 1, 2]"
proof -
  have d: "distinct (map fst (forward builtChain))" by code_simp
  have v: "map_option (\<lambda>s. (components s, dag_forward (condensed s), topologicalOrder (condensed s)))
             (computeSCC builtChain)
             = Some ([[''c''], [''b''], [''a'']], [(0, []), (1, [0]), (2, [1])], [0, 1, 2])"
    by code_simp
  from topological_order_dependencies_first[OF d] obtain s where
    s: "computeSCC builtChain = Some s"
    and p: "\<And>u v. v \<in> set (get_or_empty (dag_forward (condensed s)) u) \<Longrightarrow>
                   precedes v u (topologicalOrder (condensed s))"
    by blast
  from v s have f: "dag_forward (condensed s) = [(0, []), (1, [0]), (2, [1])]"
    and t: "topologicalOrder (condensed s) = [0, 1, 2]" by simp_all
  have "precedes 0 1 [0, 1, 2]" using p[of 0 1] by (simp add: f t get_or_empty_def)
  moreover have "precedes 1 2 [0, 1, 2]" using p[of 1 2] by (simp add: f t get_or_empty_def)
  ultimately show ?thesis using d v by simp
qed

subsection \<open>Unknown files: what the analyser itself does\<close>

lemma computeSCC_indices:
  assumes "distinct (map fst (forward g))" and "computeSCC g = Some s"
  shows "map_of (nodeToComponent s) f = Some i \<Longrightarrow>
           i < length (nodes (condensed s)) \<and> f \<in> set (files g)"
    and "d \<in> set (get_or_empty (dag_reverse (condensed s)) k) \<Longrightarrow>
           d < length (nodes (condensed s))"
proof -
  have "(map_of (nodeToComponent s) f = Some i \<longrightarrow>
           i < length (nodes (condensed s)) \<and> f \<in> set (files g)) \<and>
        (d \<in> set (get_or_empty (dag_reverse (condensed s)) k) \<longrightarrow>
           d < length (nodes (condensed s)))"
  proof (cases "files g = []")
    case True
    with assms(2) show ?thesis by (auto simp: computeSCC_def get_or_empty_def)
  next
    case False
    have "card (set (files g) - t_visited emptyTarjan) \<le> Suc (length (files g))"
      by (metis Diff_subset List.finite_set card_length card_mono le_SucI le_trans)
    from visitAll_spec[OF tarjan_inv_empty subset_refl this] obtain st where
      run: "visitAll (Suc (length (files g))) g (files g) emptyTarjan = Some st"
      and inv: "tarjan_inv g st" by blast
    let ?cs = "found st"
    let ?ntc = "buildNodeToComponent ?cs"
    from condenseGraph_ok[OF edges_descend_tarjan[OF inv assms(1)]] obtain dag where
      dag: "condenseGraph g ?cs ?ntc = Some dag" "length (nodes dag) = length ?cs"
      "dag_ok (dag_forward dag) (dag_reverse dag) (length ?cs)" by blast
    have s: "s = \<lparr>components = ?cs, nodeToComponent = ?ntc, condensed = dag\<rparr>"
      using False run dag(1) assms(2) by (simp add: computeSCC_def Let_def)
    have one: "i < length (nodes (condensed s)) \<and> f \<in> set (files g)"
      if m: "map_of (nodeToComponent s) f = Some i"
    proof -
      from m s have "map_of ?ntc f = Some i" by simp
      from nodeToComponent_Some[OF this] have i: "i < length ?cs" "f \<in> set (?cs ! i)" by auto
      then have "f \<in> set (concat ?cs)" by (auto intro: nth_mem)
      then have "f \<in> set (files g)" using inv by (auto simp: tarjan_inv_def)
      with i(1) dag(2) s show ?thesis by simp
    qed
    have two: "d < length (nodes (condensed s))"
      if m: "d \<in> set (get_or_empty (dag_reverse (condensed s)) k)"
    proof -
      from m s have "d \<in> set (get_or_empty (dag_reverse dag) k)" by simp
      with dag(3) have "k \<in> set (get_or_empty (dag_forward dag) d)" by (simp add: dag_ok_def)
      with dag(3) have "d < length ?cs" by (auto simp: dag_ok_def)
      with dag(2) s show ?thesis by simp
    qed
    from one two show ?thesis by blast
  qed
  then show "map_of (nodeToComponent s) f = Some i \<Longrightarrow>
           i < length (nodes (condensed s)) \<and> f \<in> set (files g)"
    and "d \<in> set (get_or_empty (dag_reverse (condensed s)) k) \<Longrightarrow>
           d < length (nodes (condensed s))" by blast+
qed

lemma visitDependentSCCs_range:
  assumes "visitDependentSCCs l ds (v, q) = (v', q')"
    and "fst ` set v \<subseteq> {..<n}" "fst ` set q \<subseteq> {..<n}" "set ds \<subseteq> {..<n}"
  shows "fst ` set v' \<subseteq> {..<n} \<and> fst ` set q' \<subseteq> {..<n}"
  using assms
proof (induction ds arbitrary: v q)
  case Nil
  then show ?case by simp
next
  case (Cons d ds)
  show ?case
  proof (cases "has_key v d")
    case True
    with Cons show ?thesis by simp
  next
    case False
    let ?v1 = "AList.update d (l + 1) v"
    from False Cons.prems(1) have r: "visitDependentSCCs l ds (?v1, q @ [(d, l + 1)]) = (v', q')"
      by simp
    have "fst ` set ?v1 = insert d (fst ` set v)" by (simp add: dom_update)
    then have "fst ` set ?v1 \<subseteq> {..<n}" using Cons.prems by simp
    moreover have "fst ` set (q @ [(d, l + 1)]) \<subseteq> {..<n}" using Cons.prems by simp
    moreover have "set ds \<subseteq> {..<n}" using Cons.prems by simp
    ultimately show ?thesis using Cons.IH[OF r] by blast
  qed
qed

lemma sccLoop_range:
  assumes "fst ` set v \<subseteq> {..<n}" "fst ` set q \<subseteq> {..<n}"
    and "\<forall>k. set (get_or_empty rv k) \<subseteq> {..<n}"
  shows "fst ` set (sccLoop rv v q) \<subseteq> {..<n}"
  using assms
proof (induction rv v q rule: sccLoop.induct)
  case (1 rv v)
  then show ?case by simp
next
  case (2 rv v sccIdx level queue)
  obtain v' q' where s: "visitDependentSCCs level (get_or_empty rv sccIdx) (v, queue) = (v', q')"
    by (cases "visitDependentSCCs level (get_or_empty rv sccIdx) (v, queue)") auto
  have "fst ` set queue \<subseteq> {..<n}" using "2.prems"(2) by simp
  moreover have "set (get_or_empty rv sccIdx) \<subseteq> {..<n}" using "2.prems"(3) by blast
  ultimately have "fst ` set v' \<subseteq> {..<n}" "fst ` set q' \<subseteq> {..<n}"
    using visitDependentSCCs_range[OF s "2.prems"(1)] by simp_all
  from "2.IH"[OF s[symmetric] this "2.prems"(3)] s show ?case by simp
qed

lemma expandSCCs_returns:
  "fst ` set vs \<subseteq> {..<length ns} \<Longrightarrow> \<exists>acc'. expandSCCs f ns vs acc = Inr acc'"
proof (induction vs arbitrary: acc)
  case Nil
  then show ?case by simp
next
  case (Cons p vs)
  obtain i l where p: "p = (i, l)" by (cases p)
  with Cons show ?case by simp
qed

lemma analyzeImpactWithSCC_returns:
  assumes "\<And>i. map_of (nodeToComponent s) f = Some i \<Longrightarrow> i < length (nodes (condensed s))"
    and "\<And>d k. d \<in> set (get_or_empty (dag_reverse (condensed s)) k) \<Longrightarrow>
                d < length (nodes (condensed s))"
  shows "\<exists>r. analyzeImpactWithSCC h f g s = Inr r \<and> filePath r = f \<and> fromCache r = None"
proof (cases "map_of (nodeToComponent s) f")
  case None
  then show ?thesis by (simp add: analyzeImpactWithSCC_def analyzeImpactBFS_def Let_def)
next
  case (Some i)
  let ?n = "length (nodes (condensed s))"
  from assms(1)[OF Some] have i: "i < ?n" .
  have "fst ` set (sccLoop (dag_reverse (condensed s)) [(i, 0)] [(i, 0)]) \<subseteq> {..<?n}"
    using i assms(2) by (intro sccLoop_range) auto
  from expandSCCs_returns[OF this, of f "([], [])"] obtain acc' where
    "expandSCCs f (nodes (condensed s)) (sccLoop (dag_reverse (condensed s)) [(i, 0)] [(i, 0)]) ([], [])
       = Inr acc'" by blast
  with Some i show ?thesis
    by (cases acc') (simp add: analyzeImpactWithSCC_def Let_def)
qed


text \<open>
  C4, amended. Let \<open>f\<close> be no member of \<open>Files\<close>, and let the SCC data of the graph be
  absent or a result of \<open>computeSCC\<close> (on this or an earlier state of the graph; nothing
  else writes it). The impact route answers \<open>File not found in graph\<close> without calling the
  analyser and leaves the memo cache as it is. \<open>analyzeImpact\<close> itself has no membership
  test: called on \<open>f\<close> it does not throw and returns an ordinary impact result for \<open>f\<close>,
  marked \<open>fromCache\<close> exactly when the memo cache holds \<open>f\<close>. On a miss, with SCC data
  that is absent or up to date, this result is the plain BFS over \<open>Reverse\<close>.
\<close>

theorem unknown_file_rejected_by_route_only:
  assumes "f \<notin> set (files g)"
    and "scc g = None \<or> (\<exists>g0. distinct (map fst (forward g0)) \<and> scc g = computeSCC g0)"
  shows "impactRoute h now f g mc = (Inl (FileNotInGraph f), mc) \<and>
         (\<exists>r. fst (analyzeImpact h now f g mc) = Inr r \<and> filePath r = f \<and>
              (fromCache r = Some True \<longleftrightarrow> map_of (cache mc) f \<noteq> None)) \<and>
         (map_of (cache mc) f = None \<and>
          (scc g = None \<or> distinct (map fst (forward g)) \<and> scc g = computeSCC g) \<longrightarrow>
            fst (analyzeImpact h now f g mc) = Inr (analyzeImpactBFS h f g))"
proof -
  have route: "impactRoute h now f g mc = (Inl (FileNotInGraph f), mc)"
    using assms(1) by (simp add: impactRoute_def)
  have fresh: "\<exists>r. (case scc g of Some s \<Rightarrow> analyzeImpactWithSCC h f g s
                               | None \<Rightarrow> Inr (analyzeImpactBFS h f g)) = Inr r \<and>
                   filePath r = f \<and> fromCache r = None"
  proof (cases "scc g")
    case None
    then show ?thesis by (simp add: analyzeImpactBFS_def Let_def)
  next
    case (Some s)
    with assms(2) obtain g0 where g0: "distinct (map fst (forward g0))" "computeSCC g0 = Some s"
      by auto
    from analyzeImpactWithSCC_returns[of s f h g]
      computeSCC_indices(1)[OF g0] computeSCC_indices(2)[OF g0]
    show ?thesis using Some by auto
  qed
  have any: "\<exists>r. fst (analyzeImpact h now f g mc) = Inr r \<and> filePath r = f \<and>
                 (fromCache r = Some True \<longleftrightarrow> map_of (cache mc) f \<noteq> None)"
  proof (cases "map_of (cache mc) f")
    case None
    from fresh obtain r where r: "(case scc g of Some s \<Rightarrow> analyzeImpactWithSCC h f g s
                               | None \<Rightarrow> Inr (analyzeImpactBFS h f g)) = Inr r"
      "filePath r = f" "fromCache r = None" by blast
    with None show ?thesis by (simp add: analyzeImpact_def memo_get_def)
  next
    case (Some e)
    then show ?thesis by (simp add: analyzeImpact_def memo_get_def Let_def)
  qed
  have bfs: "fst (analyzeImpact h now f g mc) = Inr (analyzeImpactBFS h f g)"
    if miss: "map_of (cache mc) f = None"
      and up: "scc g = None \<or> distinct (map fst (forward g)) \<and> scc g = computeSCC g"
  proof (cases "scc g")
    case None
    with miss show ?thesis by (simp add: analyzeImpact_def memo_get_def)
  next
    case (Some s)
    with up have d: "distinct (map fst (forward g))" and c: "computeSCC g = Some s" by auto
    have "map_of (nodeToComponent s) f = None"
    proof (rule ccontr)
      assume "map_of (nodeToComponent s) f \<noteq> None"
      then obtain i where "map_of (nodeToComponent s) f = Some i" by auto
      from computeSCC_indices(1)[OF d c this] assms(1) show False by simp
    qed
    then have "analyzeImpactWithSCC h f g s = Inr (analyzeImpactBFS h f g)"
      by (simp add: analyzeImpactWithSCC_def)
    with miss Some show ?thesis by (simp add: analyzeImpact_def memo_get_def)
  qed
  from route any bfs show ?thesis by blast
qed

theorem unknown_file_rejected_by_route_only_witness:
  "''q'' \<notin> set (files cycleGraph) \<and>
   distinct (map fst (forward cycleGraph)) \<and>
   scc cycleGraph = computeSCC cycleGraph \<and>
   map_of (cache (createMemoCache 500)) ''q'' = None \<and>
   impactRoute plainHost 0 ''q'' cycleGraph (createMemoCache 500)
     = (Inl (FileNotInGraph ''q''), createMemoCache 500) \<and>
   fst (analyzeImpact plainHost 0 ''q'' cycleGraph (createMemoCache 500))
     = Inr (analyzeImpactBFS plainHost ''q'' cycleGraph) \<and>
   analyzeImpactBFS plainHost ''q'' cycleGraph
     = \<lparr>filePath = ''q'', relativePath = ''q'', riskLevel = NONE, directDependents = [],
        transitiveDependents = [], totalImpacted = 0, cascadeLevels = None,
        circularCluster = None, sccCount = None, cyclicSCCs = None, fromCache = None\<rparr>"
proof -
  have a: "''q'' \<notin> set (files cycleGraph)" by (simp add: cycleGraph_edges)
  have d: "distinct (map fst (forward cycleGraph))" by (simp add: cycleGraph_edges)
  have c: "scc cycleGraph = computeSCC cycleGraph" by code_simp
  have m: "map_of (cache (createMemoCache 500)) ''q'' = None" by (simp add: createMemoCache_def)
  have b: "analyzeImpactBFS plainHost ''q'' cycleGraph
     = \<lparr>filePath = ''q'', relativePath = ''q'', riskLevel = NONE, directDependents = [],
        transitiveDependents = [], totalImpacted = 0, cascadeLevels = None,
        circularCluster = None, sccCount = None, cyclicSCCs = None, fromCache = None\<rparr>"
    by code_simp
  have "scc cycleGraph = None \<or>
        (\<exists>g0. distinct (map fst (forward g0)) \<and> scc cycleGraph = computeSCC g0)"
    using c d by blast
  from unknown_file_rejected_by_route_only[OF a this, of plainHost 0 "createMemoCache 500"]
    a d c m b
  show ?thesis by simp
qed

end
